theory Spec2Isabelle
  imports Main "HOL-Library.Word"
begin

unbundle bit_operations_syntax

section \<open>Data model of \<open>bcrypt-kdf.c\<close>\<close>

type_synonym u8 = "8 word"
type_synonym u16 = "16 word"
type_synonym u32 = "32 word"

text \<open>
  The digest function is injected through the global function pointer
  \<open>citadel_crypto_hash_sha512(out, in, inlen)\<close>. It is a parameter of the model: the
  function maps the input bytes to the contents it leaves in the digest buffer
  (\<open>SHA512_DIGEST_LENGTH\<close> = 64 bytes).
\<close>

type_synonym sha512 = "u8 list \<Rightarrow> u8 list"

text \<open>
  The Blowfish primitives are declared in \<open>blf.h\<close>; \<open>bcrypt_hash\<close> only calls them.
  They are parameters of the model, over an arbitrary type \<open>'st\<close> of cipher states
  (\<open>blf_ctx\<close>). Buffers are passed together with the length argument of the C call.
\<close>

record 'st blf =
  citadel_Blowfish_initstate :: "'st"
  citadel_Blowfish_expandstate :: "'st \<Rightarrow> u8 list \<Rightarrow> nat \<Rightarrow> u8 list \<Rightarrow> nat \<Rightarrow> 'st"
  citadel_Blowfish_expand0state :: "'st \<Rightarrow> u8 list \<Rightarrow> nat \<Rightarrow> 'st"
  citadel_Blowfish_stream2word :: "u8 list \<Rightarrow> nat \<Rightarrow> u16 \<Rightarrow> u32 \<times> u16"
  citadel_blf_enc :: "'st \<Rightarrow> u32 list \<Rightarrow> nat \<Rightarrow> u32 list"

definition SHA512_DIGEST_LENGTH :: nat where
  "SHA512_DIGEST_LENGTH = 64"

definition BCRYPT_WORDS :: nat where
  "BCRYPT_WORDS = 8"

definition BCRYPT_HASHSIZE :: nat where
  "BCRYPT_HASHSIZE = BCRYPT_WORDS * 4"

definition MINIMUM :: "nat \<Rightarrow> nat \<Rightarrow> nat" where
  "MINIMUM a b = (if a < b then a else b)"

section \<open>\<open>bcrypt_hash\<close>\<close>

definition magic :: "u8 list" where
  "magic = map (of_nat \<circ> of_char) ''OxychromaticBlowfishSwatDynamite''"

text \<open>Key expansion: one iteration of the loop \<open>for (i = 0; i < 64; i++)\<close>.\<close>

definition expand_round :: "'st blf \<Rightarrow> u8 list \<Rightarrow> u8 list \<Rightarrow> 'st \<Rightarrow> 'st" where
  "expand_round ops sha2pass sha2salt state =
     citadel_Blowfish_expand0state ops
       (citadel_Blowfish_expand0state ops state sha2salt SHA512_DIGEST_LENGTH)
       sha2pass SHA512_DIGEST_LENGTH"

definition key_expansion :: "'st blf \<Rightarrow> u8 list \<Rightarrow> u8 list \<Rightarrow> 'st" where
  "key_expansion ops sha2pass sha2salt =
     (expand_round ops sha2pass sha2salt ^^ 64)
       (citadel_Blowfish_expandstate ops (citadel_Blowfish_initstate ops)
          sha2salt SHA512_DIGEST_LENGTH sha2pass SHA512_DIGEST_LENGTH)"

text \<open>
  The loop \<open>for (i = 0; i < BCRYPT_WORDS; i++) cdata[i] = stream2word(ciphertext,
  sizeof(ciphertext), &j)\<close>, with the cursor \<open>j\<close> threaded through; the argument \<open>n\<close>
  counts the words still to load.
\<close>

primrec load_cdata :: "'st blf \<Rightarrow> u8 list \<Rightarrow> nat \<Rightarrow> u16 \<Rightarrow> u32 list" where
  "load_cdata ops ciphertext 0 j = []"
| "load_cdata ops ciphertext (Suc n) j =
     (case citadel_Blowfish_stream2word ops ciphertext BCRYPT_HASHSIZE j of
        (w, j') \<Rightarrow> w # load_cdata ops ciphertext n j')"

text \<open>The words \<open>cdata\<close> after the 64 encryption passes, just before the copy-out loop.\<close>

definition bcrypt_cdata :: "'st blf \<Rightarrow> u8 list \<Rightarrow> u8 list \<Rightarrow> u32 list" where
  "bcrypt_cdata ops sha2pass sha2salt =
     (let state = key_expansion ops sha2pass sha2salt;
          cdata = load_cdata ops magic BCRYPT_WORDS 0
      in ((\<lambda>cd. citadel_blf_enc ops state cd (BCRYPT_WORDS div 2)) ^^ 64) cdata)"

text \<open>
  One iteration of the copy-out loop stores the four bytes \<open>out[4*i+0 .. 4*i+3]\<close>; the
  eight iterations store every byte of the 32-byte buffer, so the result does not depend
  on what the buffer held before.
\<close>

definition word_bytes :: "u32 \<Rightarrow> u8 list" where
  "word_bytes w =
     [ucast (w AND 0xff),
      ucast (drop_bit 8 w AND 0xff),
      ucast (drop_bit 16 w AND 0xff),
      ucast (drop_bit 24 w AND 0xff)]"

definition copy_out :: "u32 list \<Rightarrow> u8 list" where
  "copy_out cdata = concat (map (\<lambda>i. word_bytes (cdata ! i)) [0..<BCRYPT_WORDS])"

definition bcrypt_hash :: "'st blf \<Rightarrow> u8 list \<Rightarrow> u8 list \<Rightarrow> u8 list" where
  "bcrypt_hash ops sha2pass sha2salt = copy_out (bcrypt_cdata ops sha2pass sha2salt)"

section \<open>\<open>citadel_bcrypt_pbkdf\<close>\<close>

subsection \<open>Platform\<close>

text \<open>
  What the function takes from its platform: whether it was compiled with \<open>__APPLE__\<close>,
  whether \<open>calloc\<close> returns a buffer, and the bytes the system random generator delivers
  (byte \<open>n\<close> of a request).
\<close>

record env =
  apple :: bool
  calloc_ok :: bool
  random :: "nat \<Rightarrow> u8"

text \<open>\<open>arc4random_buf(buf, n)\<close> fills the first \<open>n\<close> bytes of the buffer and cannot fail.\<close>

definition arc4random_buf :: "env \<Rightarrow> u8 list \<Rightarrow> nat \<Rightarrow> u8 list" where
  "arc4random_buf e buf n = map (random e) [0..<n] @ drop n buf"

text \<open>
  \<open>getentropy(buf, n)\<close> of the C library serves requests of at most 256 bytes. A longer
  request fails with \<open>EIO\<close> and stores nothing; the caller here ignores the return value.
\<close>

definition getentropy :: "env \<Rightarrow> u8 list \<Rightarrow> nat \<Rightarrow> u8 list" where
  "getentropy e buf n = (if n > 256 then buf else map (random e) [0..<n] @ drop n buf)"

subsection \<open>State of the generation loop and result of a call\<close>

text \<open>
  The variables that live across iterations of the outer loop. The stack arrays
  \<open>sha2salt\<close>, \<open>out\<close> and \<open>tmpout\<close> are uninitialised until first written (\<open>None\<close>).
  \<open>stores\<close> records, in program order, the destination of every store \<open>key[dest] = out[i]\<close>.
\<close>

record kdf_state =
  key :: "u8 list"
  stores :: "nat list"
  keylen :: nat
  amt :: nat
  count :: u32
  countsalt :: "u8 list"
  sha2salt :: "u8 list option"
  out :: "u8 list option"
  tmpout :: "u8 list option"

text \<open>
  What a call leaves behind: the return value, the caller's buffer, the trace of stores
  into it, and the contents of the intermediate buffers at the moment the function
  returns (for \<open>countsalt\<close>: at the moment it is handed to \<open>free\<close>). \<open>None\<close> is a buffer the
  call never wrote or never allocated.
\<close>

record result =
  ret :: int
  key_buf :: "u8 list"
  key_stores :: "nat list"
  exit_countsalt :: "u8 list option"
  exit_sha2pass :: "u8 list option"
  exit_sha2salt :: "u8 list option"
  exit_out :: "u8 list option"
  exit_tmpout :: "u8 list option"

subsection \<open>One key block\<close>

text \<open>The four stores \<open>countsalt[saltlen + 0 .. saltlen + 3]\<close> of the big-endian counter.\<close>

definition set_counter :: "nat \<Rightarrow> u32 \<Rightarrow> u8 list \<Rightarrow> u8 list" where
  "set_counter saltlen c cs =
     cs[saltlen + 0 := ucast (drop_bit 24 c AND 0xff),
        saltlen + 1 := ucast (drop_bit 16 c AND 0xff),
        saltlen + 2 := ucast (drop_bit 8 c AND 0xff),
        saltlen + 3 := ucast (c AND 0xff)]"

text \<open>
  Body of \<open>for (i = 1; i < rounds; i++)\<close> on the triple of \<open>sha2salt\<close>, \<open>tmpout\<close> and
  \<open>out\<close>: hash the previous \<open>tmpout\<close>, run \<open>bcrypt_hash\<close>, and xor the 32 bytes into \<open>out\<close>.
\<close>

definition round_step ::
  "sha512 \<Rightarrow> 'st blf \<Rightarrow> u8 list \<Rightarrow> u8 list \<times> u8 list \<times> u8 list \<Rightarrow> u8 list \<times> u8 list \<times> u8 list"
where
  "round_step h ops sha2pass st =
     (case st of (ssalt, tmp, acc) \<Rightarrow>
        let ssalt' = h tmp;
            tmp' = bcrypt_hash ops sha2pass ssalt';
            acc' = map (\<lambda>j. acc ! j XOR tmp' ! j) [0..<BCRYPT_HASHSIZE]
        in (ssalt', tmp', acc'))"

function rounds_loop ::
  "sha512 \<Rightarrow> 'st blf \<Rightarrow> u8 list \<Rightarrow> nat \<Rightarrow> nat \<Rightarrow> u8 list \<times> u8 list \<times> u8 list
     \<Rightarrow> u8 list \<times> u8 list \<times> u8 list"
where
  "rounds_loop h ops sha2pass rounds i st =
     (if i < rounds then rounds_loop h ops sha2pass rounds (Suc i) (round_step h ops sha2pass st)
      else st)"
  by pat_completeness auto
termination
  by (relation "measure (\<lambda>(h, ops, sha2pass, rounds, i, st). rounds - i)") auto

declare rounds_loop.simps [simp del]

text \<open>
  The first part of an outer iteration, from the hash of \<open>countsalt\<close> to the end of the
  rounds loop. The result is the triple of \<open>sha2salt\<close>, \<open>tmpout\<close> and \<open>out\<close>; its third
  component is the block's accumulated 32-byte output.
\<close>

definition kdf_block ::
  "sha512 \<Rightarrow> 'st blf \<Rightarrow> u8 list \<Rightarrow> nat \<Rightarrow> u8 list \<Rightarrow> u8 list \<times> u8 list \<times> u8 list"
where
  "kdf_block h ops sha2pass rounds cs =
     (let ssalt = h cs;
          tmp = bcrypt_hash ops sha2pass ssalt;
          acc = tmp
      in rounds_loop h ops sha2pass rounds 1 (ssalt, tmp, acc))"

definition block_out :: "sha512 \<Rightarrow> 'st blf \<Rightarrow> u8 list \<Rightarrow> nat \<Rightarrow> u8 list \<Rightarrow> u8 list" where
  "block_out h ops sha2pass rounds cs = snd (snd (kdf_block h ops sha2pass rounds cs))"

subsection \<open>Output assembly\<close>

text \<open>
  The loop \<open>for (i = 0; i < amt; i++)\<close> with its \<open>break\<close>. It returns the final \<open>i\<close>, the
  key buffer and the trace of stores. \<open>dest\<close> is a \<open>size_t\<close>; \<open>count - 1\<close> is computed in
  32 bits first.
\<close>

function assemble ::
  "nat \<Rightarrow> nat \<Rightarrow> nat \<Rightarrow> u32 \<Rightarrow> u8 list \<Rightarrow> nat \<Rightarrow> u8 list \<Rightarrow> nat list
     \<Rightarrow> nat \<times> u8 list \<times> nat list"
where
  "assemble amt' stride origkeylen c acc i k tr =
     (if i < amt' then
        (let dest = i * stride + unat (c - 1) in
         if dest \<ge> origkeylen then (i, k, tr)
         else assemble amt' stride origkeylen c acc (Suc i) (k[dest := acc ! i]) (tr @ [dest]))
      else (i, k, tr))"
  by pat_completeness auto
termination
  by (relation "measure (\<lambda>(amt', stride, origkeylen, c, acc, i, k, tr). amt' - i)") auto

declare assemble.simps [simp del]

subsection \<open>The outer loop\<close>

text \<open>
  One iteration of \<open>for (count = 1; keylen > 0; count++)\<close>, including the increment.
  After \<open>amt = MINIMUM(amt, keylen)\<close> the final \<open>i\<close> of the assembly loop is at most
  \<open>keylen\<close>, so \<open>keylen -= i\<close> does not wrap.
\<close>

definition iteration ::
  "sha512 \<Rightarrow> 'st blf \<Rightarrow> u8 list \<Rightarrow> nat \<Rightarrow> nat \<Rightarrow> nat \<Rightarrow> nat \<Rightarrow> kdf_state \<Rightarrow> kdf_state"
where
  "iteration h ops sha2pass saltlen rounds stride origkeylen s =
     (let cs = set_counter saltlen (count s) (countsalt s) in
      case kdf_block h ops sha2pass rounds cs of (ssalt, tmp, acc) \<Rightarrow>
        let amt' = MINIMUM (amt s) (keylen s) in
        case assemble amt' stride origkeylen (count s) acc 0 (key s) (stores s) of
          (i, key', stores') \<Rightarrow>
            \<lparr>key = key', stores = stores', keylen = keylen s - i, amt = amt',
             count = count s + 1, countsalt = cs, sha2salt = Some ssalt,
             out = Some acc, tmpout = Some tmp\<rparr>)"

text \<open>The loop itself. It has no bound of its own: \<open>None\<close> is a loop that never exits.\<close>

partial_function (option) generate ::
  "sha512 \<Rightarrow> 'st blf \<Rightarrow> u8 list \<Rightarrow> nat \<Rightarrow> nat \<Rightarrow> nat \<Rightarrow> nat \<Rightarrow> kdf_state \<Rightarrow> kdf_state option"
where
  "generate h ops sha2pass saltlen rounds stride origkeylen s =
     (if keylen s > 0
      then generate h ops sha2pass saltlen rounds stride origkeylen
             (iteration h ops sha2pass saltlen rounds stride origkeylen s)
      else Some s)"

declare generate.simps [code]

subsection \<open>The function\<close>

text \<open>The label \<open>bad\<close>: fill the key buffer from the system random generator, return -1.\<close>

definition bad :: "env \<Rightarrow> u8 list \<Rightarrow> nat \<Rightarrow> result" where
  "bad e k klen =
     \<lparr>ret = - 1,
      key_buf = (if apple e then arc4random_buf e k klen else getentropy e k klen),
      key_stores = [],
      exit_countsalt = None, exit_sha2pass = None, exit_sha2salt = None,
      exit_out = None, exit_tmpout = None\<rparr>"

text \<open>
  The statements after the loop: \<open>free(countsalt)\<close>, \<open>explicit_bzero(out)\<close>,
  \<open>explicit_bzero(tmpout)\<close>, \<open>return 0\<close>.
\<close>

definition zap :: "u8 list \<Rightarrow> kdf_state \<Rightarrow> result" where
  "zap sha2pass s =
     \<lparr>ret = 0,
      key_buf = key s,
      key_stores = stores s,
      exit_countsalt = Some (countsalt s),
      exit_sha2pass = Some sha2pass,
      exit_sha2salt = sha2salt s,
      exit_out = Some (replicate BCRYPT_HASHSIZE 0),
      exit_tmpout = Some (replicate BCRYPT_HASHSIZE 0)\<rparr>"

text \<open>
  The state at the head of the loop: \<open>countsalt\<close> is the zeroed allocation of
  \<open>saltlen + 4\<close> bytes with the salt copied in, \<open>count\<close> is 1.
\<close>

definition kdf_init :: "u8 list \<Rightarrow> u8 list \<Rightarrow> nat \<Rightarrow> kdf_state" where
  "kdf_init salt k stride =
     \<lparr>key = k, stores = [], keylen = length k,
      amt = (length k + stride - 1) div stride,
      count = 1,
      countsalt = salt @ replicate 4 0,
      sha2salt = None, out = None, tmpout = None\<rparr>"

text \<open>
  \<open>pass\<close>, \<open>salt\<close> and \<open>key\<close> are the three buffers with their lengths \<open>passlen\<close>,
  \<open>saltlen\<close> and \<open>keylen\<close>; \<open>rounds\<close> is an \<open>unsigned int\<close>.
\<close>

definition citadel_bcrypt_pbkdf ::
  "env \<Rightarrow> sha512 \<Rightarrow> 'st blf \<Rightarrow> u8 list \<Rightarrow> u8 list \<Rightarrow> u8 list \<Rightarrow> u32 \<Rightarrow> result option"
where
  "citadel_bcrypt_pbkdf e h ops pass salt k rounds =
     (let passlen = length pass; saltlen = length salt; klen = length k in
      if rounds < 1 then Some (bad e k klen)
      else if passlen = 0 \<or> saltlen = 0 \<or> klen = 0 \<or>
              klen > BCRYPT_HASHSIZE * BCRYPT_HASHSIZE \<or> saltlen > 2 ^ 20
        then Some (bad e k klen)
      else if \<not> calloc_ok e then Some (bad e k klen)
      else
        let stride = (klen + BCRYPT_HASHSIZE - 1) div BCRYPT_HASHSIZE;
            sha2pass = h pass
        in map_option (zap sha2pass)
             (generate h ops sha2pass saltlen (unat rounds) stride klen
                (kdf_init salt k stride)))"

section \<open>Notions used in the analysis\<close>

text \<open>
  \<open>nblk s L r\<close> is the number of indices \<open>j\<close> with \<open>j * s + r < L\<close>: the number of bytes
  that the block with \<open>count - 1 = r\<close> contributes to a key of \<open>L\<close> bytes at stride \<open>s\<close>.
  \<open>dests s L r\<close> lists their destinations in the order of the assembly loop, and
  \<open>all_dests s L n\<close> those of the first \<open>n\<close> blocks.
\<close>

definition nblk :: "nat \<Rightarrow> nat \<Rightarrow> nat \<Rightarrow> nat" where
  "nblk s L r = (L - r + s - 1) div s"

definition dests :: "nat \<Rightarrow> nat \<Rightarrow> nat \<Rightarrow> nat list" where
  "dests s L r = map (\<lambda>j. j * s + r) [0..<nblk s L r]"

definition all_dests :: "nat \<Rightarrow> nat \<Rightarrow> nat \<Rightarrow> nat list" where
  "all_dests s L k = concat (map (dests s L) [0..<k])"

text \<open>The four counter bytes that an outer iteration appends to the salt.\<close>

definition be32 :: "u32 \<Rightarrow> u8 list" where
  "be32 c = [ucast (drop_bit 24 c AND 0xff), ucast (drop_bit 16 c AND 0xff),
             ucast (drop_bit 8 c AND 0xff), ucast (c AND 0xff)]"

text \<open>
  The state at the head of the outer loop after \<open>n\<close> iterations, for the original key
  buffer \<open>k0\<close>: the counter, the trace of stores, the remaining length, a lower bound on
  \<open>amt\<close>, and the contents of the key buffer and of \<open>countsalt\<close>.
\<close>

definition kdf_inv ::
  "sha512 \<Rightarrow> 'st blf \<Rightarrow> u8 list \<Rightarrow> nat \<Rightarrow> u8 list \<Rightarrow> u8 list \<Rightarrow> nat \<Rightarrow> nat \<Rightarrow> kdf_state \<Rightarrow> bool"
where
  "kdf_inv h ops sha2pass rounds salt k0 stride n s \<longleftrightarrow>
     count s = of_nat (Suc n) \<and>
     stores s = all_dests stride (length k0) n \<and>
     keylen s = length k0 - length (all_dests stride (length k0) n) \<and>
     min ((length k0 + stride - 1) div stride) (keylen s) \<le> amt s \<and>
     length (key s) = length k0 \<and>
     (\<forall>d < length k0. key s ! d =
        (if d mod stride < n
         then block_out h ops sha2pass rounds (salt @ be32 (of_nat (Suc (d mod stride)))) ! (d div stride)
         else k0 ! d)) \<and>
     (\<exists>x. length x = 4 \<and> countsalt s = salt @ x)"

text \<open>The state after \<open>stride\<close> iterations of the outer loop, started as the function starts it.\<close>

definition kdf_final :: "sha512 \<Rightarrow> 'st blf \<Rightarrow> u8 list \<Rightarrow> u8 list \<Rightarrow> u8 list \<Rightarrow> u32 \<Rightarrow> kdf_state" where
  "kdf_final h ops pass salt k rounds =
     (iteration h ops (h pass) (length salt) (unat rounds) ((length k + 31) div 32) (length k)
        ^^ ((length k + 31) div 32)) (kdf_init salt k ((length k + 31) div 32))"

text \<open>The contents of \<open>tmpout\<close> at the end of the rounds loop of one block.\<close>

definition block_tmp :: "sha512 \<Rightarrow> 'st blf \<Rightarrow> u8 list \<Rightarrow> nat \<Rightarrow> u8 list \<Rightarrow> u8 list" where
  "block_tmp h ops sha2pass rounds cs = fst (snd (kdf_block h ops sha2pass rounds cs))"

subsection \<open>Concrete inputs\<close>

text \<open>
  Stand-ins for the injected digest function and for the Blowfish primitives, and two
  platforms. They serve as concrete inputs at which the general theorems are
  instantiated; no general theorem depends on them.
\<close>

definition mock_sha512 :: sha512 where
  "mock_sha512 xs = replicate SHA512_DIGEST_LENGTH (of_nat (length xs))"

definition const_sha512 :: sha512 where
  "const_sha512 xs = replicate SHA512_DIGEST_LENGTH 1"

definition mock_blf :: "u32 blf" where
  "mock_blf =
     \<lparr>citadel_Blowfish_initstate = 0x243f6a88,
      citadel_Blowfish_expandstate = (\<lambda>st d dl k kl. st + ucast (sum_list (take dl d)) + ucast (sum_list (take kl k))),
      citadel_Blowfish_expand0state = (\<lambda>st k kl. st + ucast (sum_list (take kl k))),
      citadel_Blowfish_stream2word = (\<lambda>d dl j. (ucast (d ! (unat j mod dl)), j + 4)),
      citadel_blf_enc = (\<lambda>st cd n. map (\<lambda>w. w + st) cd)\<rparr>"

definition linux_env :: env where
  "linux_env = \<lparr>apple = False, calloc_ok = True, random = (\<lambda>n. of_nat n + 1)\<rparr>"

definition apple_env :: env where
  "apple_env = \<lparr>apple = True, calloc_ok = True, random = (\<lambda>n. of_nat n + 7)\<rparr>"

definition nomem_env :: env where
  "nomem_env = \<lparr>apple = False, calloc_ok = False, random = (\<lambda>n. of_nat n + 1)\<rparr>"

section \<open>The copy-out loop of \<open>bcrypt_hash\<close>\<close>

lemma length_word_bytes: "length (word_bytes w) = 4"
  by (simp add: word_bytes_def)

lemma concat_nth_fixed:
  "\<forall>x \<in> set xss. length x = n \<Longrightarrow> i < length xss \<Longrightarrow> j < n \<Longrightarrow>
     concat xss ! (n * i + j) = xss ! i ! j"
proof (induction xss arbitrary: i)
  case Nil
  then show ?case by simp
next
  case (Cons a xss)
  show ?case
  proof (cases i)
    case 0
    with Cons.prems show ?thesis by (simp add: nth_append)
  next
    case (Suc i')
    with Cons.prems have "concat xss ! (n * i' + j) = xss ! i' ! j"
      by (intro Cons.IH) auto
    moreover have "n * i + j = n + (n * i' + j)" using Suc by simp
    ultimately show ?thesis using Cons.prems Suc
      by (simp add: nth_append)
  qed
qed

lemma copy_out_nth:
  assumes "i < 8" "j < 4"
  shows "copy_out cdata ! (4 * i + j) = word_bytes (cdata ! i) ! j"
proof -
  let ?xss = "map (\<lambda>i. word_bytes (cdata ! i)) [0..<8]"
  have "concat ?xss ! (4 * i + j) = ?xss ! i ! j"
    using assms by (intro concat_nth_fixed) (auto simp: length_word_bytes)
  moreover have "?xss ! i = word_bytes (cdata ! i)" using assms by simp
  ultimately show ?thesis by (simp add: copy_out_def BCRYPT_WORDS_def)
qed

lemma length_copy_out: "length (copy_out cdata) = 32"
  by (simp add: copy_out_def BCRYPT_WORDS_def length_concat comp_def length_word_bytes sum_list_triv)

lemma length_bcrypt_hash: "length (bcrypt_hash ops p s) = 32"
  by (simp add: bcrypt_hash_def length_copy_out)


section \<open>The assembly loop\<close>

lemma less_nblk_iff: "0 < s \<Longrightarrow> j < nblk s L r \<longleftrightarrow> j * s + r < L"
proof -
  assume s: "0 < s"
  have "j < nblk s L r \<longleftrightarrow> Suc j \<le> (L - r + s - 1) div s"
    by (simp add: nblk_def Suc_le_eq)
  also have "\<dots> \<longleftrightarrow> Suc j * s \<le> L - r + s - 1"
    using s by (simp add: less_eq_div_iff_mult_less_eq)
  also have "\<dots> \<longleftrightarrow> j * s + r < L"
    using s by auto
  finally show ?thesis .
qed

lemma assemble_eq:
  "0 < s \<Longrightarrow> i \<le> min a (nblk s L (unat (c - 1))) \<Longrightarrow>
    assemble a s L c acc i k tr =
      (min a (nblk s L (unat (c - 1))),
       fold (\<lambda>j k. k[j * s + unat (c - 1) := acc ! j]) [i..<min a (nblk s L (unat (c - 1)))] k,
       tr @ map (\<lambda>j. j * s + unat (c - 1)) [i..<min a (nblk s L (unat (c - 1)))])"
proof (induction a s L c acc i k tr rule: assemble.induct)
  case (1 a s L c acc i k tr)
  let ?r = "unat (c - 1)"
  let ?m = "min a (nblk s L ?r)"
  from "1.prems" have s: "0 < s" by simp
  show ?case
  proof (cases "i < a")
    case False
    with "1.prems" have "?m = i" by simp
    then show ?thesis using False by (simp add: assemble.simps[of a s L c acc i])
  next
    case True
    show ?thesis
    proof (cases "L \<le> i * s + ?r")
      case True
      then have "\<not> i < nblk s L ?r" using s by (simp add: less_nblk_iff)
      with "1.prems" have "?m = i" by simp
      then show ?thesis using True \<open>i < a\<close>
        by (simp add: assemble.simps[of a s L c acc i])
    next
      case False
      then have lt: "i < nblk s L ?r" using s by (simp add: less_nblk_iff)
      with \<open>i < a\<close> have le: "Suc i \<le> ?m" by simp
      have ih: "assemble a s L c acc (Suc i) (k[i * s + ?r := acc ! i]) (tr @ [i * s + ?r]) =
        (?m, fold (\<lambda>j k. k[j * s + ?r := acc ! j]) [Suc i..<?m] (k[i * s + ?r := acc ! i]),
         (tr @ [i * s + ?r]) @ map (\<lambda>j. j * s + ?r) [Suc i..<?m])"
        using "1.IH"[OF \<open>i < a\<close> refl _ s le] False by simp
      have upt: "[i..<?m] = i # [Suc i..<?m]"
        using le by (simp add: upt_conv_Cons)
      show ?thesis
        using False \<open>i < a\<close> ih
        by (simp add: assemble.simps[of a s L c acc i] upt Let_def)
    qed
  qed
qed

section \<open>Destinations of the stores\<close>

lemma set_dests:
  assumes "0 < s" "r < s"
  shows "set (dests s L r) = {d. d < L \<and> d mod s = r}"
proof (rule set_eqI, rule iffI)
  fix d assume "d \<in> set (dests s L r)"
  then obtain j where j: "j < nblk s L r" "d = j * s + r"
    by (auto simp: dests_def)
  then show "d \<in> {d. d < L \<and> d mod s = r}"
    using assms by (simp add: less_nblk_iff)
next
  fix d assume "d \<in> {d. d < L \<and> d mod s = r}"
  then have d: "d < L" "d mod s = r" by simp_all
  have eq: "d = (d div s) * s + r" using d(2) by (metis div_mult_mod_eq)
  with d(1) have "d div s < nblk s L r"
    using assms(1) less_nblk_iff[of s "d div s" L r] by simp
  with eq show "d \<in> set (dests s L r)"
    unfolding dests_def by (metis (mono_tags, lifting) atLeast0LessThan image_eqI lessThan_iff set_map set_upt)
qed

lemma distinct_dests: "0 < s \<Longrightarrow> distinct (dests s L r)"
  by (auto simp: dests_def distinct_map intro!: inj_onI)

lemma length_dests: "length (dests s L r) = nblk s L r"
  by (simp add: dests_def)

lemma all_dests_Suc: "all_dests s L (Suc k) = all_dests s L k @ dests s L k"
  by (simp add: all_dests_def)

lemma all_dests_0: "all_dests s L 0 = []"
  by (simp add: all_dests_def)

lemma all_dests_props:
  "0 < s \<Longrightarrow> k \<le> s \<Longrightarrow>
     distinct (all_dests s L k) \<and> set (all_dests s L k) = {d. d < L \<and> d mod s < k}"
proof (induction k)
  case 0
  then show ?case by (simp add: all_dests_0)
next
  case (Suc k)
  then have ih: "distinct (all_dests s L k)" "set (all_dests s L k) = {d. d < L \<and> d mod s < k}"
    by simp_all
  have sd: "set (dests s L k) = {d. d < L \<and> d mod s = k}"
    using Suc.prems by (intro set_dests) simp_all
  have "{d. d < L \<and> d mod s < Suc k} = {d. d < L \<and> d mod s < k} \<union> {d. d < L \<and> d mod s = k}"
    by auto
  moreover have "{d. d < L \<and> d mod s < k} \<inter> {d. d < L \<and> d mod s = k} = {}"
    by auto
  ultimately show ?case
    using ih sd distinct_dests[OF Suc.prems(1), of L k]
    by (simp add: all_dests_Suc)
qed

lemma all_dests_full:
  assumes "0 < s"
  shows "set (all_dests s L s) = {..<L}"
  using all_dests_props[OF assms, of s L] assms by auto

lemma length_all_dests_le:
  assumes "0 < s" "k \<le> s"
  shows "length (all_dests s L k) \<le> L"
proof -
  have "distinct (all_dests s L k)" "set (all_dests s L k) \<subseteq> {..<L}"
    using all_dests_props[OF assms, of L] by auto
  then have "length (all_dests s L k) = card (set (all_dests s L k))"
    by (simp add: distinct_card)
  also have "\<dots> \<le> card {..<L}"
    using \<open>set (all_dests s L k) \<subseteq> {..<L}\<close> by (intro card_mono) simp_all
  finally show ?thesis by simp
qed

lemma length_all_dests_full:
  assumes "0 < s"
  shows "length (all_dests s L s) = L"
proof -
  have "distinct (all_dests s L s)" using all_dests_props[OF assms, of s L] by simp
  then have "length (all_dests s L s) = card (set (all_dests s L s))"
    by (simp add: distinct_card)
  then show ?thesis by (simp add: all_dests_full[OF assms])
qed

lemma nblk_le_remaining:
  assumes "0 < s" "r < s"
  shows "nblk s L r \<le> L - length (all_dests s L r)"
  using length_all_dests_le[OF assms(1), of "Suc r" L] assms(2)
  by (simp add: all_dests_Suc length_dests)

lemma nblk_pos: "0 < s \<Longrightarrow> r < L \<Longrightarrow> 0 < nblk s L r"
  using less_nblk_iff[of s 0 L r] by simp

lemma nblk_le_amt0: "nblk s L r \<le> (L + s - 1) div s"
  unfolding nblk_def by (rule div_le_mono) simp

lemma length_fold_upd:
  "length (fold (\<lambda>j k. k[j * s + r := acc ! j]) [0..<m] k) = length k"
  by (induction m) simp_all

lemma fold_upd_nth:
  assumes "0 < s" "r < s" "d < length k"
  shows "fold (\<lambda>j k. k[j * s + r := acc ! j]) [0..<m] k ! d
           = (if d mod s = r \<and> d div s < m then acc ! (d div s) else k ! d)"
proof (induction m)
  case 0
  then show ?case by simp
next
  case (Suc m)
  have eq: "d = m * s + r \<longleftrightarrow> d mod s = r \<and> d div s = m"
    using assms(1,2) by (metis div_mult_mod_eq add.commute div_mult_self3 div_less mod_mult_self3 mod_less add.right_neutral less_numeral_extra(3))
  show ?case
    using Suc assms(3) eq by (auto simp: nth_list_update less_Suc_eq length_fold_upd)
qed

section \<open>One iteration of the outer loop\<close>

lemma set_counter_append:
  "length x = 4 \<Longrightarrow> set_counter (length salt) c (salt @ x) = salt @ be32 c"
proof -
  assume "length x = 4"
  then obtain a b c' d where "x = [a, b, c', d]"
    by (cases x; cases "tl x"; cases "tl (tl x)"; cases "tl (tl (tl x))") auto
  then show ?thesis
    by (simp add: set_counter_def be32_def list_update_append)
qed

lemma kdf_inv_init:
  "kdf_inv h ops sha2pass rounds salt k0 stride 0 (kdf_init salt k0 stride)"
  by (simp add: kdf_inv_def kdf_init_def all_dests_0)

lemma MINIMUM_min: "MINIMUM a b = min a b"
  by (simp add: MINIMUM_def min_def)

lemma kdf_inv_step:
  assumes inv: "kdf_inv h ops sha2pass rounds salt k0 stride n s"
    and n: "n < stride" and sL: "stride \<le> length k0" and s32: "stride < 2 ^ 32"
  shows "kdf_inv h ops sha2pass rounds salt k0 stride (Suc n)
           (iteration h ops sha2pass (length salt) rounds stride (length k0) s)"
    and "0 < keylen s"
    and "keylen (iteration h ops sha2pass (length salt) rounds stride (length k0) s) < keylen s"
    and "countsalt (iteration h ops sha2pass (length salt) rounds stride (length k0) s)
           = salt @ be32 (of_nat (Suc n))"
    and "out (iteration h ops sha2pass (length salt) rounds stride (length k0) s)
           = Some (block_out h ops sha2pass rounds (salt @ be32 (of_nat (Suc n))))"
    and "sha2salt (iteration h ops sha2pass (length salt) rounds stride (length k0) s)
           = Some (fst (kdf_block h ops sha2pass rounds (salt @ be32 (of_nat (Suc n)))))"
proof -
  let ?L = "length k0"
  let ?it = "iteration h ops sha2pass (length salt) rounds stride ?L s"
  have s0: "0 < stride" using n by simp
  have c: "count s = of_nat (Suc n)" using inv by (simp add: kdf_inv_def)
  have "n < 2 ^ 32" using n s32 by simp
  then have r: "unat (count s - 1) = n"
    by (simp add: c unat_of_nat)
  obtain x where x: "length x = 4" "countsalt s = salt @ x"
    using inv by (auto simp: kdf_inv_def)
  have cs: "set_counter (length salt) (count s) (countsalt s) = salt @ be32 (of_nat (Suc n))"
    using x by (simp add: set_counter_append c)
  obtain ssalt tmp acc where kb: "kdf_block h ops sha2pass rounds (salt @ be32 (of_nat (Suc n))) = (ssalt, tmp, acc)"
    by (cases "kdf_block h ops sha2pass rounds (salt @ be32 (of_nat (Suc n)))") auto
  then have acc: "acc = block_out h ops sha2pass rounds (salt @ be32 (of_nat (Suc n)))"
    by (simp add: block_out_def)
  have kl: "keylen s = ?L - length (all_dests stride ?L n)"
    using inv by (simp add: kdf_inv_def)
  have nb1: "nblk stride ?L n \<le> keylen s"
    unfolding kl using s0 n by (rule nblk_le_remaining)
  have nb2: "nblk stride ?L n \<le> amt s"
  proof -
    have "nblk stride ?L n \<le> min ((?L + stride - 1) div stride) (keylen s)"
      using nb1 nblk_le_amt0[of stride ?L n] by simp
    also have "\<dots> \<le> amt s" using inv unfolding kdf_inv_def by blast
    finally show ?thesis .
  qed
  have m: "min (MINIMUM (amt s) (keylen s)) (nblk stride ?L (unat (count s - 1))) = nblk stride ?L n"
    using nb1 nb2 by (simp add: MINIMUM_min r)
  have asm: "assemble (MINIMUM (amt s) (keylen s)) stride ?L (count s) acc 0 (key s) (stores s) =
      (nblk stride ?L n,
       fold (\<lambda>j k. k[j * stride + n := acc ! j]) [0..<nblk stride ?L n] (key s),
       stores s @ dests stride ?L n)"
    using assemble_eq[OF s0, of 0 "MINIMUM (amt s) (keylen s)" ?L "count s" acc "key s" "stores s"]
    unfolding m by (simp add: r dests_def)
  have it: "?it = \<lparr>key = fold (\<lambda>j k. k[j * stride + n := acc ! j]) [0..<nblk stride ?L n] (key s),
        stores = stores s @ dests stride ?L n, keylen = keylen s - nblk stride ?L n,
        amt = MINIMUM (amt s) (keylen s), count = count s + 1,
        countsalt = salt @ be32 (of_nat (Suc n)), sha2salt = Some ssalt,
        out = Some acc, tmpout = Some tmp\<rparr>"
    by (simp only: iteration_def cs Let_def kb prod.case asm)
  have pos: "0 < nblk stride ?L n"
    using s0 n sL by (intro nblk_pos) simp_all
  show "0 < keylen s" using pos nb1 by simp
  show "keylen ?it < keylen s" using pos nb1 by (simp add: it)
  show "countsalt ?it = salt @ be32 (of_nat (Suc n))" by (simp add: it)
  show "out ?it = Some (block_out h ops sha2pass rounds (salt @ be32 (of_nat (Suc n))))"
    by (simp only: it acc kdf_state.simps)
  show "sha2salt ?it = Some (fst (kdf_block h ops sha2pass rounds (salt @ be32 (of_nat (Suc n)))))"
    by (simp only: it kb kdf_state.simps fst_conv)
  have klen: "length (key s) = ?L" using inv by (simp add: kdf_inv_def)
  have keys: "\<forall>d < ?L. key s ! d =
        (if d mod stride < n
         then block_out h ops sha2pass rounds (salt @ be32 (of_nat (Suc (d mod stride)))) ! (d div stride)
         else k0 ! d)"
    using inv by (simp add: kdf_inv_def)
  have newkey: "key ?it ! d =
        (if d mod stride < Suc n
         then block_out h ops sha2pass rounds (salt @ be32 (of_nat (Suc (d mod stride)))) ! (d div stride)
         else k0 ! d)" if d: "d < ?L" for d
  proof -
    have f: "key ?it ! d = (if d mod stride = n \<and> d div stride < nblk stride ?L n then acc ! (d div stride) else key s ! d)"
      using fold_upd_nth[OF s0 n, of d "key s" acc "nblk stride ?L n"] d klen by (simp add: it)
    have "d div stride < nblk stride ?L n" if "d mod stride = n"
    proof -
      have "d div stride * stride + n = d" using that by (metis div_mult_mod_eq)
      then show ?thesis using d s0 by (simp add: less_nblk_iff)
    qed
    then show ?thesis using f keys d acc by (auto simp: less_Suc_eq)
  qed
  have len: "length (key ?it) = ?L"
    using klen by (simp add: it length_fold_upd)
  show "kdf_inv h ops sha2pass rounds salt k0 stride (Suc n) ?it"
    unfolding kdf_inv_def
  proof (intro conjI)
    show "count ?it = of_nat (Suc (Suc n))" by (simp add: it c)
    show "stores ?it = all_dests stride ?L (Suc n)"
      using inv by (simp add: it kdf_inv_def all_dests_Suc)
    show "keylen ?it = ?L - length (all_dests stride ?L (Suc n))"
      by (simp add: it kl all_dests_Suc length_dests)
    have "min ((?L + stride - 1) div stride) (keylen s) \<le> amt s"
      using inv unfolding kdf_inv_def by blast
    then have "min ((?L + stride - 1) div stride) (keylen s - nblk stride ?L n)
                 \<le> min (amt s) (keylen s)"
      by (simp add: min_def split: if_splits)
    then show "min ((?L + stride - 1) div stride) (keylen ?it) \<le> amt ?it"
      by (simp only: it MINIMUM_min kdf_state.simps)
    show "length (key ?it) = ?L" by (rule len)
    show "\<forall>d < ?L. key ?it ! d =
        (if d mod stride < Suc n
         then block_out h ops sha2pass rounds (salt @ be32 (of_nat (Suc (d mod stride)))) ! (d div stride)
         else k0 ! d)"
      using newkey by blast
    show "\<exists>x. length x = 4 \<and> countsalt ?it = salt @ x"
      by (rule exI[of _ "be32 (of_nat (Suc n))"]) (simp add: it be32_def)
  qed
qed

section \<open>The outer loop and the whole function\<close>

lemma generate_funpow:
  "(\<forall>j<n. 0 < keylen ((iteration h ops sp sl r st L ^^ j) s)) \<Longrightarrow>
   keylen ((iteration h ops sp sl r st L ^^ n) s) = 0 \<Longrightarrow>
   generate h ops sp sl r st L s = Some ((iteration h ops sp sl r st L ^^ n) s)"
proof (induction n arbitrary: s)
  case 0
  then show ?case by (simp add: generate.simps)
next
  case (Suc n)
  let ?f = "iteration h ops sp sl r st L"
  from Suc.prems(1) have pos: "0 < keylen s" by force
  have a: "\<forall>j<n. 0 < keylen ((?f ^^ j) (?f s))"
  proof (intro allI impI)
    fix j assume "j < n"
    then have "0 < keylen ((?f ^^ Suc j) s)" using Suc.prems(1) by blast
    then show "0 < keylen ((?f ^^ j) (?f s))" by (simp add: funpow_swap1)
  qed
  have b: "keylen ((?f ^^ n) (?f s)) = 0"
    using Suc.prems(2) by (simp add: funpow_swap1)
  have "generate h ops sp sl r st L (?f s) = Some ((?f ^^ n) (?f s))"
    using Suc.IH[OF a b] .
  then show ?case
    using pos by (subst generate.simps) (simp add: funpow_swap1)
qed

lemma kdf_inv_iter:
  assumes sL: "stride \<le> length k0" and s32: "stride < 2 ^ 32"
  shows "n \<le> stride \<Longrightarrow>
    kdf_inv h ops sp rounds salt k0 stride n
      ((iteration h ops sp (length salt) rounds stride (length k0) ^^ n) (kdf_init salt k0 stride))"
proof (induction n)
  case 0
  show ?case by (simp add: kdf_inv_init)
next
  case (Suc n)
  then have "kdf_inv h ops sp rounds salt k0 stride n
      ((iteration h ops sp (length salt) rounds stride (length k0) ^^ n) (kdf_init salt k0 stride))"
    and "n < stride" by simp_all
  from kdf_inv_step(1)[OF this sL s32] show ?case by simp
qed

lemma kdf_iter_decreases:
  assumes sL: "stride \<le> length k0" and s32: "stride < 2 ^ 32" and n: "n < stride"
  shows "0 < keylen ((iteration h ops sp (length salt) rounds stride (length k0) ^^ n) (kdf_init salt k0 stride))"
    and "keylen ((iteration h ops sp (length salt) rounds stride (length k0) ^^ Suc n) (kdf_init salt k0 stride))
          < keylen ((iteration h ops sp (length salt) rounds stride (length k0) ^^ n) (kdf_init salt k0 stride))"
proof -
  have inv: "kdf_inv h ops sp rounds salt k0 stride n
      ((iteration h ops sp (length salt) rounds stride (length k0) ^^ n) (kdf_init salt k0 stride))"
    using n by (intro kdf_inv_iter[OF sL s32]) simp
  show "0 < keylen ((iteration h ops sp (length salt) rounds stride (length k0) ^^ n) (kdf_init salt k0 stride))"
    using kdf_inv_step(2)[OF inv n sL s32] .
  show "keylen ((iteration h ops sp (length salt) rounds stride (length k0) ^^ Suc n) (kdf_init salt k0 stride))
          < keylen ((iteration h ops sp (length salt) rounds stride (length k0) ^^ n) (kdf_init salt k0 stride))"
    using kdf_inv_step(3)[OF inv n sL s32] by simp
qed

lemma kdf_iter_final:
  assumes s0: "0 < stride" and sL: "stride \<le> length k0" and s32: "stride < 2 ^ 32"
  shows "keylen ((iteration h ops sp (length salt) rounds stride (length k0) ^^ stride) (kdf_init salt k0 stride)) = 0"
proof -
  have "kdf_inv h ops sp rounds salt k0 stride stride
      ((iteration h ops sp (length salt) rounds stride (length k0) ^^ stride) (kdf_init salt k0 stride))"
    by (intro kdf_inv_iter[OF sL s32]) simp
  then show ?thesis by (simp add: kdf_inv_def length_all_dests_full[OF s0])
qed

lemma generate_init:
  assumes s0: "0 < stride" and sL: "stride \<le> length k0" and s32: "stride < 2 ^ 32"
  shows "generate h ops sp (length salt) rounds stride (length k0) (kdf_init salt k0 stride)
          = Some ((iteration h ops sp (length salt) rounds stride (length k0) ^^ stride) (kdf_init salt k0 stride))"
  by (intro generate_funpow allI impI kdf_iter_decreases(1)[OF sL s32] kdf_iter_final[OF s0 sL s32])

lemma stride_bounds:
  fixes L :: nat
  assumes "1 \<le> L" "L \<le> 1024"
  shows "0 < (L + 31) div 32" "(L + 31) div 32 \<le> L" "(L + 31) div 32 \<le> 32"
        "(L + 31) div 32 < 2 ^ 32"
  using assms by simp_all

lemma pbkdf_success:
  assumes "1 \<le> rounds" "pass \<noteq> []" "salt \<noteq> []" "1 \<le> length k" "length k \<le> 1024"
    "length salt \<le> 2 ^ 20" "calloc_ok e"
  shows "citadel_bcrypt_pbkdf e h ops pass salt k rounds
           = Some (zap (h pass) (kdf_final h ops pass salt k rounds))"
proof -
  have r: "\<not> rounds < 1" using assms(1) by (simp only: not_less)
  have g: "generate h ops (h pass) (length salt) (unat rounds) ((length k + 31) div 32) (length k)
             (kdf_init salt k ((length k + 31) div 32)) = Some (kdf_final h ops pass salt k rounds)"
    unfolding kdf_final_def
    using stride_bounds[OF assms(4,5)] by (intro generate_init) simp_all
  have st: "(length k + BCRYPT_HASHSIZE - 1) div BCRYPT_HASHSIZE = (length k + 31) div 32"
    by (simp add: BCRYPT_HASHSIZE_def BCRYPT_WORDS_def)
  have v: "\<not> (length pass = 0 \<or> length salt = 0 \<or> length k = 0 \<or>
              length k > BCRYPT_HASHSIZE * BCRYPT_HASHSIZE \<or> length salt > 2 ^ 20)"
    using assms by (auto simp add: BCRYPT_HASHSIZE_def BCRYPT_WORDS_def)
  show ?thesis
    unfolding citadel_bcrypt_pbkdf_def Let_def st
    by (simp only: r v g assms(7) if_False not_True_eq_False not_not option.map)
qed

lemma kdf_final_inv:
  assumes "1 \<le> length k" "length k \<le> 1024"
  shows "kdf_inv h ops (h pass) (unat rounds) salt k ((length k + 31) div 32) ((length k + 31) div 32)
           (kdf_final h ops pass salt k rounds)"
  unfolding kdf_final_def using stride_bounds[OF assms]
  by (intro kdf_inv_iter) simp_all

lemma pbkdf_failure:
  assumes "rounds < 1 \<or> pass = [] \<or> salt = [] \<or> length k = 0 \<or> length k > 1024 \<or>
           length salt > 2 ^ 20 \<or> \<not> calloc_ok e"
  shows "citadel_bcrypt_pbkdf e h ops pass salt k rounds = Some (bad e k (length k))"
  using assms
  by (auto simp add: citadel_bcrypt_pbkdf_def BCRYPT_HASHSIZE_def BCRYPT_WORDS_def Let_def)

section \<open>The rounds loop and the contents of the key\<close>

lemma rounds_loop_funpow:
  "rounds_loop h ops sp R i st = (round_step h ops sp ^^ (R - i)) st"
proof (induction h ops sp R i st rule: rounds_loop.induct)
  case (1 h ops sp R i st)
  show ?case
  proof (cases "i < R")
    case True
    then have "R - i = Suc (R - Suc i)" by simp
    then show ?thesis
      using "1.IH"[OF True] True
      by (simp add: rounds_loop.simps[of h ops sp R i st] funpow_swap1)
  next
    case False
    then show ?thesis by (simp add: rounds_loop.simps[of h ops sp R i st])
  qed
qed

lemma kdf_block_funpow:
  "kdf_block h ops sp R cs =
     (round_step h ops sp ^^ (R - 1))
       (h cs, bcrypt_hash ops sp (h cs), bcrypt_hash ops sp (h cs))"
  by (simp add: kdf_block_def Let_def rounds_loop_funpow)

lemma kdf_block_Suc:
  "1 \<le> R \<Longrightarrow> kdf_block h ops sp (Suc R) cs = round_step h ops sp (kdf_block h ops sp R cs)"
  by (cases R) (simp_all add: kdf_block_funpow)

lemma length_round_step_acc: "length (snd (snd (round_step h ops sp st))) = 32"
  by (cases st) (simp add: round_step_def Let_def BCRYPT_HASHSIZE_def BCRYPT_WORDS_def)

lemma length_round_step_tmp: "length (fst (snd (round_step h ops sp st))) = 32"
  by (cases st) (simp add: round_step_def Let_def length_bcrypt_hash)

lemma length_block_out: "length (block_out h ops sp R cs) = 32"
proof (cases "R - 1")
  case 0
  then show ?thesis by (simp add: block_out_def kdf_block_funpow length_bcrypt_hash)
next
  case (Suc m)
  then show ?thesis
    by (simp add: block_out_def kdf_block_funpow length_round_step_acc)
qed

lemma block_out_Suc:
  assumes "1 \<le> R" "j < 32"
  shows "block_out h ops sp (Suc R) cs ! j
           = block_out h ops sp R cs ! j XOR block_tmp h ops sp (Suc R) cs ! j"
proof -
  obtain a b c where kb: "kdf_block h ops sp R cs = (a, b, c)"
    by (cases "kdf_block h ops sp R cs") auto
  show ?thesis
    using assms(2)
    by (simp add: block_out_def block_tmp_def kdf_block_Suc[OF assms(1)] kb round_step_def Let_def
        BCRYPT_HASHSIZE_def BCRYPT_WORDS_def)
qed

lemma kdf_final_key:
  assumes "1 \<le> length k" "length k \<le> 1024" "d < length k"
  shows "key (kdf_final h ops pass salt k rounds) ! d =
           block_out h ops (h pass) (unat rounds)
             (salt @ be32 (of_nat (Suc (d mod ((length k + 31) div 32))))) ! (d div ((length k + 31) div 32))"
proof -
  let ?s = "(length k + 31) div 32"
  have "\<forall>d < length k. key (kdf_final h ops pass salt k rounds) ! d =
        (if d mod ?s < ?s
         then block_out h ops (h pass) (unat rounds) (salt @ be32 (of_nat (Suc (d mod ?s)))) ! (d div ?s)
         else k ! d)"
    using kdf_final_inv[OF assms(1,2), of h ops pass rounds salt] unfolding kdf_inv_def by blast
  moreover have "d mod ?s < ?s" using stride_bounds(1)[OF assms(1,2)] by simp
  ultimately show ?thesis using assms(3) by simp
qed

lemma kdf_iter_out:
  assumes "1 \<le> length k" "length k \<le> 1024" "n < (length k + 31) div 32"
  shows "out ((iteration h ops sp (length salt) rounds ((length k + 31) div 32) (length k) ^^ Suc n)
                (kdf_init salt k ((length k + 31) div 32)))
           = Some (block_out h ops sp rounds (salt @ be32 (of_nat (Suc n))))"
proof -
  note sb = stride_bounds[OF assms(1,2)]
  have inv: "kdf_inv h ops sp rounds salt k ((length k + 31) div 32) n
      ((iteration h ops sp (length salt) rounds ((length k + 31) div 32) (length k) ^^ n)
         (kdf_init salt k ((length k + 31) div 32)))"
    using assms(3) by (intro kdf_inv_iter[OF sb(2) sb(4)]) simp
  show ?thesis
    using kdf_inv_step(5)[OF inv assms(3) sb(2) sb(4)] by simp
qed

section \<open>Claims about the stores into the key buffer\<close>

lemma count_list_distinct:
  "distinct xs \<Longrightarrow> count_list xs x = (if x \<in> set xs then 1 else 0)"
  by (induction xs) auto

lemma kdf_final_stores:
  assumes "1 \<le> length k" "length k \<le> 1024"
  shows "stores (kdf_final h ops pass salt k rounds)
           = all_dests ((length k + 31) div 32) (length k) ((length k + 31) div 32)"
    and "length (key (kdf_final h ops pass salt k rounds)) = length k"
    and "keylen (kdf_final h ops pass salt k rounds) = 0"
    and "count (kdf_final h ops pass salt k rounds) = of_nat (Suc ((length k + 31) div 32))"
proof -
  note inv = kdf_final_inv[OF assms, of h ops pass rounds salt]
  show "stores (kdf_final h ops pass salt k rounds)
           = all_dests ((length k + 31) div 32) (length k) ((length k + 31) div 32)"
    using inv unfolding kdf_inv_def by blast
  show "length (key (kdf_final h ops pass salt k rounds)) = length k"
    using inv unfolding kdf_inv_def by blast
  have "keylen (kdf_final h ops pass salt k rounds)
          = length k - length (all_dests ((length k + 31) div 32) (length k) ((length k + 31) div 32))"
    using inv unfolding kdf_inv_def by blast
  then show "keylen (kdf_final h ops pass salt k rounds) = 0"
    using stride_bounds(1)[OF assms] by (simp add: length_all_dests_full)
  show "count (kdf_final h ops pass salt k rounds) = of_nat (Suc ((length k + 31) div 32))"
    using inv unfolding kdf_inv_def by blast
qed

text \<open>
  C1. For every valid input (non-empty password and salt, key length between 1 and 1024,
  salt of at most \<open>2^20\<close> bytes, at least one round) on which the allocation succeeds, the
  call returns 0 and the stores \<open>key[dest] = out[i]\<close> it executed hit every index below
  the key length exactly once and no other index. The trace is the one the loops
  prescribe: block \<open>r = count - 1\<close> stores at \<open>i * stride + r\<close> for the \<open>i\<close> that keep the
  destination below the key length, with \<open>stride = (keylen + 31) div 32\<close>.
\<close>

theorem pbkdf_stores_every_byte_once:
  assumes "1 \<le> rounds" "pass \<noteq> []" "salt \<noteq> []" "1 \<le> length k" "length k \<le> 1024"
    "length salt \<le> 2 ^ 20" "calloc_ok e"
  shows "\<exists>r. citadel_bcrypt_pbkdf e h ops pass salt k rounds = Some r \<and> ret r = 0 \<and>
           length (key_buf r) = length k \<and>
           key_stores r = all_dests ((length k + 31) div 32) (length k) ((length k + 31) div 32) \<and>
           (\<forall>d. count_list (key_stores r) d = (if d < length k then 1 else 0))"
proof -
  let ?s = "(length k + 31) div 32"
  let ?r = "zap (h pass) (kdf_final h ops pass salt k rounds)"
  have s0: "0 < ?s" using stride_bounds(1)[OF assms(4,5)] .
  have st: "key_stores ?r = all_dests ?s (length k) ?s"
    by (simp add: zap_def kdf_final_stores(1)[OF assms(4,5)])
  have "distinct (all_dests ?s (length k) ?s)"
    using all_dests_props[OF s0, of ?s "length k"] by simp
  then have "count_list (key_stores ?r) d = (if d < length k then 1 else 0)" for d
    unfolding st by (simp add: count_list_distinct all_dests_full[OF s0])
  moreover have "length (key_buf ?r) = length k"
    by (simp add: zap_def kdf_final_stores(2)[OF assms(4,5)])
  moreover have "ret ?r = 0" by (simp add: zap_def)
  ultimately show ?thesis
    using pbkdf_success[OF assms, of h ops] st by blast
qed

theorem pbkdf_stores_every_byte_once_witness:
  "(1::u32) \<le> 2 \<and> [1::u8] \<noteq> [] \<and> [2::u8] \<noteq> [] \<and> 1 \<le> length (replicate 70 (0::u8)) \<and>
   length (replicate 70 (0::u8)) \<le> 1024 \<and> length [2::u8] \<le> 2 ^ 20 \<and> calloc_ok linux_env \<and>
   (\<exists>r. citadel_bcrypt_pbkdf linux_env mock_sha512 mock_blf [1] [2] (replicate 70 0) 2 = Some r \<and>
        ret r = 0 \<and> length (key_buf r) = length (replicate 70 (0::u8)) \<and>
        key_stores r = all_dests ((length (replicate 70 (0::u8)) + 31) div 32)
                         (length (replicate 70 (0::u8))) ((length (replicate 70 (0::u8)) + 31) div 32) \<and>
        (\<forall>d. count_list (key_stores r) d = (if d < length (replicate 70 (0::u8)) then 1 else 0)))"
proof -
  have a: "(1::u32) \<le> 2" "[1::u8] \<noteq> []" "[2::u8] \<noteq> []" "1 \<le> length (replicate 70 (0::u8))"
    "length (replicate 70 (0::u8)) \<le> 1024" "length [2::u8] \<le> 2 ^ 20" "calloc_ok linux_env"
    by (simp_all add: linux_env_def)
  from pbkdf_stores_every_byte_once[OF a, of mock_sha512 mock_blf] a show ?thesis
    by blast
qed

section \<open>Claims about termination and failure\<close>

text \<open>
  C9. For a key length between 1 and 1024 the outer loop exits after exactly
  \<open>stride\<close> iterations, where \<open>stride\<close> is the key length divided by 32 and rounded up:
  before each of the first \<open>stride\<close> iterations the remaining length is positive and
  the first destination \<open>count - 1\<close> of the assembly loop lies below the key length, each
  iteration strictly decreases the remaining length, and after \<open>stride\<close> iterations the
  remaining length is 0, where the loop returns.
\<close>

theorem generate_runs_stride_iterations:
  assumes "1 \<le> length k" "length k \<le> 1024"
  shows
    "let stride = (length k + 31) div 32;
         it = iteration h ops sp (length salt) rounds stride (length k);
         s0 = kdf_init salt k stride
     in 32 * (stride - 1) < length k \<and> length k \<le> 32 * stride \<and>
        generate h ops sp (length salt) rounds stride (length k) s0 = Some ((it ^^ stride) s0) \<and>
        (\<forall>n < stride. 0 < keylen ((it ^^ n) s0) \<and>
                       unat (count ((it ^^ n) s0) - 1) < length k \<and>
                       keylen ((it ^^ Suc n) s0) < keylen ((it ^^ n) s0)) \<and>
        keylen ((it ^^ stride) s0) = 0 \<and>
        count ((it ^^ stride) s0) = of_nat (stride + 1)"
proof -
  let ?s = "(length k + 31) div 32"
  let ?it = "iteration h ops sp (length salt) rounds ?s (length k)"
  let ?ini = "kdf_init salt k ?s"
  note sb = stride_bounds[OF assms]
  have ceil: "32 * (?s - 1) < length k" "length k \<le> 32 * ?s"
    using assms by auto
  have gen: "generate h ops sp (length salt) rounds ?s (length k) ?ini = Some ((?it ^^ ?s) ?ini)"
    using sb by (intro generate_init) simp_all
  have step: "0 < keylen ((?it ^^ n) ?ini) \<and> unat (count ((?it ^^ n) ?ini) - 1) < length k \<and>
              keylen ((?it ^^ Suc n) ?ini) < keylen ((?it ^^ n) ?ini)" if n: "n < ?s" for n
  proof -
    have inv: "kdf_inv h ops sp rounds salt k ?s n ((?it ^^ n) ?ini)"
      using n sb by (intro kdf_inv_iter) simp_all
    then have c: "count ((?it ^^ n) ?ini) = of_nat (Suc n)"
      unfolding kdf_inv_def by blast
    have "n < 2 ^ 32" using n sb(4) by simp
    then have "unat (count ((?it ^^ n) ?ini) - 1) = n"
      by (simp add: c unat_of_nat)
    then have "unat (count ((?it ^^ n) ?ini) - 1) < length k"
      using n sb(2) by simp
    then show ?thesis
      using kdf_iter_decreases[OF sb(2) sb(4) n, of h ops sp salt rounds] by blast
  qed
  have fin: "keylen ((?it ^^ ?s) ?ini) = 0"
    using sb by (intro kdf_iter_final) simp_all
  have "kdf_inv h ops sp rounds salt k ?s ?s ((?it ^^ ?s) ?ini)"
    using sb by (intro kdf_inv_iter) simp_all
  then have cnt: "count ((?it ^^ ?s) ?ini) = of_nat (?s + 1)"
    unfolding kdf_inv_def by simp
  show ?thesis
    unfolding Let_def using ceil gen step fin cnt by blast
qed

theorem generate_runs_stride_iterations_witness:
  "1 \<le> length (replicate 70 (0::u8)) \<and> length (replicate 70 (0::u8)) \<le> 1024 \<and>
   (let stride = (length (replicate 70 (0::u8)) + 31) div 32;
        it = iteration mock_sha512 mock_blf (mock_sha512 [1]) (length [2::u8]) 2 stride
               (length (replicate 70 (0::u8)));
        s0 = kdf_init [2] (replicate 70 0) stride
    in 32 * (stride - 1) < length (replicate 70 (0::u8)) \<and>
       length (replicate 70 (0::u8)) \<le> 32 * stride \<and>
       generate mock_sha512 mock_blf (mock_sha512 [1]) (length [2::u8]) 2 stride
         (length (replicate 70 (0::u8))) s0 = Some ((it ^^ stride) s0) \<and>
       (\<forall>n < stride. 0 < keylen ((it ^^ n) s0) \<and>
                      unat (count ((it ^^ n) s0) - 1) < length (replicate 70 (0::u8)) \<and>
                      keylen ((it ^^ Suc n) s0) < keylen ((it ^^ n) s0)) \<and>
       keylen ((it ^^ stride) s0) = 0 \<and>
       count ((it ^^ stride) s0) = of_nat (stride + 1))"
proof -
  have a: "1 \<le> length (replicate 70 (0::u8))" "length (replicate 70 (0::u8)) \<le> 1024"
    by simp_all
  from generate_runs_stride_iterations[OF a, of mock_sha512 mock_blf "mock_sha512 [1]" "[2]" 2] a
  show ?thesis by blast
qed

text \<open>
  C2. Every call returns, with -1 or 0. It returns -1 exactly when \<open>rounds < 1\<close>, or the
  password is empty, or the salt is empty, or the key length is 0 or above 1024, or
  the salt is longer than \<open>2^20\<close> bytes, or the allocation fails. A failing call leaves
  through \<open>bad\<close>: its result is determined by the platform and the key buffer alone, no
  intermediate buffer has been written, no digest computed and no byte of key material
  stored.
\<close>

theorem pbkdf_fails_iff_invalid:
  "\<exists>r. citadel_bcrypt_pbkdf e h ops pass salt k rounds = Some r \<and>
        (ret r = - 1 \<or> ret r = 0) \<and>
        (ret r = - 1 \<longleftrightarrow>
           (rounds < 1 \<or> pass = [] \<or> salt = [] \<or> length k = 0 \<or> length k > 1024 \<or>
            length salt > 2 ^ 20 \<or> \<not> calloc_ok e)) \<and>
        (ret r = - 1 \<longrightarrow>
           r = bad e k (length k) \<and> key_stores r = [] \<and> exit_sha2pass r = None \<and>
           exit_sha2salt r = None \<and> exit_out r = None \<and> exit_tmpout r = None \<and>
           exit_countsalt r = None)"
proof (cases "rounds < 1 \<or> pass = [] \<or> salt = [] \<or> length k = 0 \<or> length k > 1024 \<or>
            length salt > 2 ^ 20 \<or> \<not> calloc_ok e")
  case True
  have "ret (bad e k (length k)) = - 1" "key_stores (bad e k (length k)) = []"
    "exit_sha2pass (bad e k (length k)) = None" "exit_sha2salt (bad e k (length k)) = None"
    "exit_out (bad e k (length k)) = None" "exit_tmpout (bad e k (length k)) = None"
    "exit_countsalt (bad e k (length k)) = None"
    by (simp_all add: bad_def)
  then show ?thesis
    using pbkdf_failure[OF True, of h ops] True by auto
next
  case False
  then have "\<not> rounds < 1" by blast
  then have r: "1 \<le> rounds" by (simp only: not_less)
  from False have "pass \<noteq> []" "salt \<noteq> []" "1 \<le> length k" "length k \<le> 1024"
    "length salt \<le> 2 ^ 20" "calloc_ok e"
    by (auto simp: not_less Suc_le_eq)
  note v = r this
  have "ret (zap (h pass) (kdf_final h ops pass salt k rounds)) = 0"
    by (simp add: zap_def)
  then show ?thesis
    using pbkdf_success[OF v, of h ops] False by auto
qed

theorem pbkdf_fails_iff_invalid_witness:
  "\<not> calloc_ok nomem_env \<and>
   (\<exists>r. citadel_bcrypt_pbkdf nomem_env mock_sha512 mock_blf [1] [2] [0, 0] 3 = Some r \<and>
        ret r = - 1 \<and> r = bad nomem_env [0, 0] (length [0::u8, 0]) \<and> key_stores r = [] \<and>
        exit_sha2pass r = None \<and> exit_sha2salt r = None \<and> exit_out r = None \<and>
        exit_tmpout r = None \<and> exit_countsalt r = None)"
proof -
  have a: "\<not> calloc_ok nomem_env" by (simp add: nomem_env_def)
  from pbkdf_fails_iff_invalid[of nomem_env mock_sha512 mock_blf "[1]" "[2]" "[0, 0]" 3] a
  show ?thesis by blast
qed

section \<open>Claim about the byte order of \<open>bcrypt_hash\<close>\<close>

text \<open>
  C8. \<open>bcrypt_hash\<close> writes each of its 8 final words least-significant byte first: for
  every word index \<open>i\<close> below 8, output byte \<open>4 * i\<close> is the low byte of word \<open>i\<close>, bytes
  \<open>4 * i + 1\<close> and \<open>4 * i + 2\<close> are bits 8 to 15 and 16 to 23, and byte \<open>4 * i + 3\<close> is its
  most significant byte.
\<close>

theorem bcrypt_hash_bytes_little_endian:
  assumes "i < 8"
  shows "bcrypt_hash ops p s ! (4 * i) = ucast (bcrypt_cdata ops p s ! i)
       \<and> bcrypt_hash ops p s ! (4 * i + 1) = ucast (drop_bit 8 (bcrypt_cdata ops p s ! i))
       \<and> bcrypt_hash ops p s ! (4 * i + 2) = ucast (drop_bit 16 (bcrypt_cdata ops p s ! i))
       \<and> bcrypt_hash ops p s ! (4 * i + 3) = ucast (drop_bit 24 (bcrypt_cdata ops p s ! i))"
proof -
  have ff: "(0xff :: u32) = mask 8"
    by (simp add: mask_eq_exp_minus_1)
  have m: "ucast (w AND 0xff) = (ucast w :: u8)" for w :: u32
    unfolding ff by (rule bit_word_eqI) (auto simp: bit_simps)
  show ?thesis
    using copy_out_nth[OF assms, of 0] copy_out_nth[OF assms, of 1] copy_out_nth[OF assms, of 2] copy_out_nth[OF assms, of 3]
    by (simp add: bcrypt_hash_def word_bytes_def m)
qed

theorem bcrypt_hash_bytes_little_endian_witness:
  "(5::nat) < 8 \<and>
   bcrypt_hash mock_blf (mock_sha512 [1]) (mock_sha512 [2]) ! (4 * 5)
     = ucast (bcrypt_cdata mock_blf (mock_sha512 [1]) (mock_sha512 [2]) ! 5) \<and>
   bcrypt_hash mock_blf (mock_sha512 [1]) (mock_sha512 [2]) ! (4 * 5 + 1)
     = ucast (drop_bit 8 (bcrypt_cdata mock_blf (mock_sha512 [1]) (mock_sha512 [2]) ! 5)) \<and>
   bcrypt_hash mock_blf (mock_sha512 [1]) (mock_sha512 [2]) ! (4 * 5 + 2)
     = ucast (drop_bit 16 (bcrypt_cdata mock_blf (mock_sha512 [1]) (mock_sha512 [2]) ! 5)) \<and>
   bcrypt_hash mock_blf (mock_sha512 [1]) (mock_sha512 [2]) ! (4 * 5 + 3)
     = ucast (drop_bit 24 (bcrypt_cdata mock_blf (mock_sha512 [1]) (mock_sha512 [2]) ! 5))"
proof -
  have a: "(5::nat) < 8" by simp
  from bcrypt_hash_bytes_little_endian[OF a, of mock_blf "mock_sha512 [1]" "mock_sha512 [2]"] a
  show ?thesis by blast
qed

section \<open>Claims about the contents of the derived key\<close>

text \<open>
  C4. For a key of 64 bytes (stride 2) on a valid input: byte \<open>i\<close> of \<open>out\<close> as the first
  outer iteration leaves it lands at index \<open>i * 2\<close> of the key, and byte \<open>i\<close> of \<open>out\<close> as
  the second iteration leaves it lands at index \<open>i * 2 + 1\<close>, for every \<open>i < 16\<close>.
\<close>

theorem pbkdf_interleaves_two_blocks:
  assumes "1 \<le> rounds" "pass \<noteq> []" "salt \<noteq> []" "length k = 64" "length salt \<le> 2 ^ 20"
    "calloc_ok e" "i < 16"
  shows "(length k + 31) div 32 = 2 \<and>
    (\<exists>r b1 b2. citadel_bcrypt_pbkdf e h ops pass salt k rounds = Some r \<and>
       out ((iteration h ops (h pass) (length salt) (unat rounds) 2 64 ^^ 1) (kdf_init salt k 2)) = Some b1 \<and>
       out ((iteration h ops (h pass) (length salt) (unat rounds) 2 64 ^^ 2) (kdf_init salt k 2)) = Some b2 \<and>
       length b1 = 32 \<and> length b2 = 32 \<and> length (key_buf r) = 64 \<and>
       key_buf r ! (i * 2) = b1 ! i \<and> key_buf r ! (i * 2 + 1) = b2 ! i)"
proof -
  have L: "1 \<le> length k" "length k \<le> 1024" using assms(4) by simp_all
  have s: "(length k + 31) div 32 = 2" using assms(4) by simp
  let ?b1 = "block_out h ops (h pass) (unat rounds) (salt @ be32 (of_nat (Suc 0)))"
  let ?b2 = "block_out h ops (h pass) (unat rounds) (salt @ be32 (of_nat (Suc 1)))"
  let ?r = "zap (h pass) (kdf_final h ops pass salt k rounds)"
  have o1: "out ((iteration h ops (h pass) (length salt) (unat rounds) 2 64 ^^ 1) (kdf_init salt k 2)) = Some ?b1"
    using kdf_iter_out[OF L, of 0 h ops "h pass" salt "unat rounds"] unfolding s assms(4) by simp
  have o2: "out ((iteration h ops (h pass) (length salt) (unat rounds) 2 64 ^^ 2) (kdf_init salt k 2)) = Some ?b2"
    using kdf_iter_out[OF L, of 1 h ops "h pass" salt "unat rounds"] unfolding s assms(4)
    by (simp add: numeral_2_eq_2)
  have d1: "i * 2 < length k" "(i * 2) mod 2 = 0" "(i * 2) div 2 = i"
    using assms(4,7) by simp_all
  have d2: "i * 2 + 1 < length k" "(i * 2 + 1) mod 2 = 1" "(i * 2 + 1) div 2 = i"
    using assms(4,7) by presburger+
  have k1: "key_buf ?r ! (i * 2) = ?b1 ! i"
    using kdf_final_key[OF L d1(1), of h ops pass salt rounds] unfolding s d1 by (simp add: zap_def)
  have k2: "key_buf ?r ! (i * 2 + 1) = ?b2 ! i"
    using kdf_final_key[OF L d2(1), of h ops pass salt rounds] unfolding s d2 by (simp add: zap_def)
  have len: "length (key_buf ?r) = 64"
    using kdf_final_stores(2)[OF L, of h ops pass salt rounds] assms(4) by (simp add: zap_def)
  have "citadel_bcrypt_pbkdf e h ops pass salt k rounds = Some ?r"
    using assms L by (intro pbkdf_success) simp_all
  then show ?thesis
    using s o1 o2 k1 k2 len length_block_out[of h ops "h pass" "unat rounds"] by blast
qed

theorem pbkdf_interleaves_two_blocks_witness:
  "(1::u32) \<le> 2 \<and> [1::u8] \<noteq> [] \<and> [2::u8] \<noteq> [] \<and> length (replicate 64 (0::u8)) = 64 \<and>
   length [2::u8] \<le> 2 ^ 20 \<and> calloc_ok linux_env \<and> (3::nat) < 16 \<and>
   (length (replicate 64 (0::u8)) + 31) div 32 = 2 \<and>
    (\<exists>r b1 b2. citadel_bcrypt_pbkdf linux_env mock_sha512 mock_blf [1] [2] (replicate 64 0) 2 = Some r \<and>
       out ((iteration mock_sha512 mock_blf (mock_sha512 [1]) (length [2::u8]) (unat (2::u32)) 2 64 ^^ 1)
              (kdf_init [2] (replicate 64 0) 2)) = Some b1 \<and>
       out ((iteration mock_sha512 mock_blf (mock_sha512 [1]) (length [2::u8]) (unat (2::u32)) 2 64 ^^ 2)
              (kdf_init [2] (replicate 64 0) 2)) = Some b2 \<and>
       length b1 = 32 \<and> length b2 = 32 \<and> length (key_buf r) = 64 \<and>
       key_buf r ! (3 * 2) = b1 ! 3 \<and> key_buf r ! (3 * 2 + 1) = b2 ! 3)"
proof -
  have a: "(1::u32) \<le> 2" "[1::u8] \<noteq> []" "[2::u8] \<noteq> []" "length (replicate 64 (0::u8)) = 64"
    "length [2::u8] \<le> 2 ^ 20" "calloc_ok linux_env" "(3::nat) < 16"
    by (simp_all add: linux_env_def)
  from pbkdf_interleaves_two_blocks[OF a, of mock_sha512 mock_blf] a show ?thesis
    by blast
qed

text \<open>
  C10. For a key length between 1 and 32 on a valid input: \<open>stride\<close> is 1, \<open>amt\<close> starts as
  the key length, the outer loop exits after its first iteration, and the derived key is
  the first \<open>keylen\<close> bytes of \<open>out\<close> as that iteration leaves it.
\<close>

theorem pbkdf_single_block_is_prefix:
  assumes "1 \<le> rounds" "pass \<noteq> []" "salt \<noteq> []" "1 \<le> length k" "length k \<le> 32"
    "length salt \<le> 2 ^ 20" "calloc_ok e"
  shows "(length k + 31) div 32 = 1 \<and> amt (kdf_init salt k 1) = length k \<and>
    generate h ops (h pass) (length salt) (unat rounds) 1 (length k) (kdf_init salt k 1)
      = Some (iteration h ops (h pass) (length salt) (unat rounds) 1 (length k) (kdf_init salt k 1)) \<and>
    (\<exists>r b. citadel_bcrypt_pbkdf e h ops pass salt k rounds = Some r \<and>
       out (iteration h ops (h pass) (length salt) (unat rounds) 1 (length k) (kdf_init salt k 1)) = Some b \<and>
       length b = 32 \<and> key_buf r = take (length k) b)"
proof -
  have L: "1 \<le> length k" "length k \<le> 1024" using assms(4,5) by simp_all
  have s: "(length k + 31) div 32 = 1" using assms(4,5) by simp
  let ?b = "block_out h ops (h pass) (unat rounds) (salt @ be32 (of_nat (Suc 0)))"
  let ?r = "zap (h pass) (kdf_final h ops pass salt k rounds)"
  let ?it = "iteration h ops (h pass) (length salt) (unat rounds) 1 (length k)"
  have a: "amt (kdf_init salt k 1) = length k" by (simp add: kdf_init_def)
  have g: "generate h ops (h pass) (length salt) (unat rounds) 1 (length k) (kdf_init salt k 1)
             = Some (?it (kdf_init salt k 1))"
    using generate_init[of 1 k h ops "h pass" salt "unat rounds"] assms(4) by simp
  have o: "out (?it (kdf_init salt k 1)) = Some ?b"
    using kdf_iter_out[OF L, of 0 h ops "h pass" salt "unat rounds"] unfolding s by simp
  have lb: "length ?b = 32" by (rule length_block_out)
  have lk: "length (key_buf ?r) = length k"
    using kdf_final_stores(2)[OF L, of h ops pass salt rounds] by (simp add: zap_def)
  have "key_buf ?r = take (length k) ?b"
  proof (rule nth_equalityI)
    show "length (key_buf ?r) = length (take (length k) ?b)"
      using lk lb assms(5) by simp
  next
    fix d assume "d < length (key_buf ?r)"
    then have d: "d < length k" using lk by simp
    show "key_buf ?r ! d = take (length k) ?b ! d"
      using kdf_final_key[OF L d, of h ops pass salt rounds] d unfolding s
      by (simp add: zap_def)
  qed
  moreover have "citadel_bcrypt_pbkdf e h ops pass salt k rounds = Some ?r"
    using assms L by (intro pbkdf_success) simp_all
  ultimately show ?thesis
    using s a g o lb by blast
qed

theorem pbkdf_single_block_is_prefix_witness:
  "(1::u32) \<le> 2 \<and> [1::u8] \<noteq> [] \<and> [2::u8] \<noteq> [] \<and> 1 \<le> length (replicate 20 (0::u8)) \<and>
   length (replicate 20 (0::u8)) \<le> 32 \<and> length [2::u8] \<le> 2 ^ 20 \<and> calloc_ok linux_env \<and>
   (length (replicate 20 (0::u8)) + 31) div 32 = 1 \<and>
   amt (kdf_init [2] (replicate 20 0) 1) = length (replicate 20 (0::u8)) \<and>
   generate mock_sha512 mock_blf (mock_sha512 [1]) (length [2::u8]) (unat (2::u32)) 1
      (length (replicate 20 (0::u8))) (kdf_init [2] (replicate 20 0) 1)
     = Some (iteration mock_sha512 mock_blf (mock_sha512 [1]) (length [2::u8]) (unat (2::u32)) 1
               (length (replicate 20 (0::u8))) (kdf_init [2] (replicate 20 0) 1)) \<and>
   (\<exists>r b. citadel_bcrypt_pbkdf linux_env mock_sha512 mock_blf [1] [2] (replicate 20 0) 2 = Some r \<and>
      out (iteration mock_sha512 mock_blf (mock_sha512 [1]) (length [2::u8]) (unat (2::u32)) 1
             (length (replicate 20 (0::u8))) (kdf_init [2] (replicate 20 0) 1)) = Some b \<and>
      length b = 32 \<and> key_buf r = take (length (replicate 20 (0::u8))) b)"
proof -
  have a: "(1::u32) \<le> 2" "[1::u8] \<noteq> []" "[2::u8] \<noteq> []" "1 \<le> length (replicate 20 (0::u8))"
    "length (replicate 20 (0::u8)) \<le> 32" "length [2::u8] \<le> 2 ^ 20" "calloc_ok linux_env"
    by (simp_all add: linux_env_def)
  from pbkdf_single_block_is_prefix[OF a, of mock_sha512 mock_blf] a show ?thesis
    by blast
qed

text \<open>
  C6. For a fixed digest function and a fixed valid password, salt, number of rounds and
  key length, any two calls on which the allocation succeeds return 0 and leave the same
  bytes in the key buffer, whatever the platform, the random generator and the previous
  contents of the two buffers.
\<close>

theorem pbkdf_deterministic:
  assumes "1 \<le> rounds" "pass \<noteq> []" "salt \<noteq> []" "1 \<le> length k1" "length k1 \<le> 1024"
    "length salt \<le> 2 ^ 20" "calloc_ok e1" "calloc_ok e2" "length k2 = length k1"
  shows "\<exists>r1 r2. citadel_bcrypt_pbkdf e1 h ops pass salt k1 rounds = Some r1 \<and>
                 citadel_bcrypt_pbkdf e2 h ops pass salt k2 rounds = Some r2 \<and>
                 ret r1 = 0 \<and> ret r2 = 0 \<and> key_buf r1 = key_buf r2"
proof -
  have L1: "1 \<le> length k1" "length k1 \<le> 1024" using assms(4,5) by simp_all
  have L2: "1 \<le> length k2" "length k2 \<le> 1024" using assms(4,5,9) by simp_all
  let ?r1 = "zap (h pass) (kdf_final h ops pass salt k1 rounds)"
  let ?r2 = "zap (h pass) (kdf_final h ops pass salt k2 rounds)"
  have p1: "citadel_bcrypt_pbkdf e1 h ops pass salt k1 rounds = Some ?r1"
    using assms(1-3) L1 assms(6,7) by (rule pbkdf_success)
  have p2: "citadel_bcrypt_pbkdf e2 h ops pass salt k2 rounds = Some ?r2"
    using assms(1-3) L2 assms(6,8) by (rule pbkdf_success)
  have l1: "length (key_buf ?r1) = length k1"
    using kdf_final_stores(2)[OF L1, of h ops pass salt rounds] by (simp add: zap_def)
  have l2: "length (key_buf ?r2) = length k1"
    using kdf_final_stores(2)[OF L2, of h ops pass salt rounds] assms(9) by (simp add: zap_def)
  have "key_buf ?r1 = key_buf ?r2"
  proof (rule nth_equalityI)
    show "length (key_buf ?r1) = length (key_buf ?r2)" using l1 l2 by simp
  next
    fix d assume "d < length (key_buf ?r1)"
    then have d1: "d < length k1" and d2: "d < length k2" using l1 assms(9) by simp_all
    show "key_buf ?r1 ! d = key_buf ?r2 ! d"
      using kdf_final_key[OF L1 d1, of h ops pass salt rounds]
        kdf_final_key[OF L2 d2, of h ops pass salt rounds] assms(9)
      by (simp add: zap_def)
  qed
  moreover have "ret ?r1 = 0" "ret ?r2 = 0" by (simp_all add: zap_def)
  ultimately show ?thesis using p1 p2 by blast
qed

theorem pbkdf_deterministic_witness:
  "(1::u32) \<le> 2 \<and> [1::u8] \<noteq> [] \<and> [2::u8] \<noteq> [] \<and> 1 \<le> length (replicate 70 (0::u8)) \<and>
   length (replicate 70 (0::u8)) \<le> 1024 \<and> length [2::u8] \<le> 2 ^ 20 \<and> calloc_ok linux_env \<and>
   calloc_ok apple_env \<and> length (replicate 70 (9::u8)) = length (replicate 70 (0::u8)) \<and>
   (\<exists>r1 r2. citadel_bcrypt_pbkdf linux_env mock_sha512 mock_blf [1] [2] (replicate 70 0) 2 = Some r1 \<and>
            citadel_bcrypt_pbkdf apple_env mock_sha512 mock_blf [1] [2] (replicate 70 9) 2 = Some r2 \<and>
            ret r1 = 0 \<and> ret r2 = 0 \<and> key_buf r1 = key_buf r2)"
proof -
  have a: "(1::u32) \<le> 2" "[1::u8] \<noteq> []" "[2::u8] \<noteq> []" "1 \<le> length (replicate 70 (0::u8))"
    "length (replicate 70 (0::u8)) \<le> 1024" "length [2::u8] \<le> 2 ^ 20" "calloc_ok linux_env"
    "calloc_ok apple_env" "length (replicate 70 (9::u8)) = length (replicate 70 (0::u8))"
    by (simp_all add: linux_env_def apple_env_def)
  from pbkdf_deterministic[OF a, of mock_sha512 mock_blf] a show ?thesis
    by blast
qed

section \<open>Claim about the number of rounds\<close>

lemma round_step_const:
  assumes "\<And>x. h x = z"
  shows "round_step h ops sp (a, t, acc) =
           (z, bcrypt_hash ops sp z, map (\<lambda>j. acc ! j XOR bcrypt_hash ops sp z ! j) [0..<32])"
  by (simp add: round_step_def Let_def assms BCRYPT_HASHSIZE_def BCRYPT_WORDS_def)

lemma block_out_const_hash:
  assumes "\<And>x. h x = z"
  shows "block_out h ops sp 3 cs = block_out h ops sp 1 cs"
proof -
  let ?T = "bcrypt_hash ops sp z"
  have l: "length ?T = 32" by (rule length_bcrypt_hash)
  have "map (\<lambda>j. map (\<lambda>j. ?T ! j XOR ?T ! j) [0..<32] ! j XOR ?T ! j) [0..<32] = ?T"
  proof (rule nth_equalityI)
    show "length (map (\<lambda>j. map (\<lambda>j. ?T ! j XOR ?T ! j) [0..<32] ! j XOR ?T ! j) [0..<32]) = length ?T"
      using l by simp
  next
    fix i assume "i < length (map (\<lambda>j. map (\<lambda>j. ?T ! j XOR ?T ! j) [0..<32] ! j XOR ?T ! j) [0..<32])"
    then have i: "i < 32" by simp
    then show "map (\<lambda>j. map (\<lambda>j. ?T ! j XOR ?T ! j) [0..<32] ! j XOR ?T ! j) [0..<32] ! i = ?T ! i"
      by simp
  qed
  then have "round_step h ops sp (round_step h ops sp (z, ?T, ?T)) = (z, ?T, ?T)"
    by (simp only: round_step_const[OF assms])
  moreover have "kdf_block h ops sp 3 cs = round_step h ops sp (round_step h ops sp (z, ?T, ?T))"
    by (simp add: kdf_block_funpow assms numeral_2_eq_2)
  moreover have "kdf_block h ops sp 1 cs = (z, ?T, ?T)"
    by (simp add: kdf_block_funpow assms)
  ultimately show ?thesis
    by (simp add: block_out_def)
qed

lemma kdf_final_key_eq:
  assumes "1 \<le> length k" "length k \<le> 1024"
    and "\<And>cs. block_out h ops (h pass) (unat r1) cs = block_out h ops (h pass) (unat r2) cs"
  shows "key (kdf_final h ops pass salt k r1) = key (kdf_final h ops pass salt k r2)"
proof (rule nth_equalityI)
  show "length (key (kdf_final h ops pass salt k r1)) = length (key (kdf_final h ops pass salt k r2))"
    by (simp add: kdf_final_stores(2)[OF assms(1,2)])
next
  fix d assume "d < length (key (kdf_final h ops pass salt k r1))"
  then have d: "d < length k" by (simp add: kdf_final_stores(2)[OF assms(1,2)])
  show "key (kdf_final h ops pass salt k r1) ! d = key (kdf_final h ops pass salt k r2) ! d"
    by (simp add: kdf_final_key[OF assms(1,2) d] assms(3))
qed

lemma key_buf_zap: "key_buf (zap sp s) = key s"
  by (simp add: zap_def)

lemma ret_zap: "ret (zap sp s) = 0"
  by (simp add: zap_def)

lemma word_xor_eq_self_iff: "a XOR b = a \<longleftrightarrow> b = 0" for a b :: "'a::len word"
proof
  assume "a XOR b = a"
  then have "a XOR (a XOR b) = a XOR a" by simp
  then show "b = 0" by (simp add: xor.assoc[symmetric])
next
  assume "b = 0" then show "a XOR b = a" by simp
qed

lemma unat_ge_1: "1 \<le> r \<Longrightarrow> 1 \<le> unat r" for r :: u32
  by (simp add: word_le_nat_alt)

lemma unat_plus_1: "r + 1 \<noteq> 0 \<Longrightarrow> unat (r + 1) = Suc (unat r)" for r :: u32
  using unatSuc[of r] by (simp add: add.commute)

lemma one_le_plus_1: "r + 1 \<noteq> 0 \<Longrightarrow> 1 \<le> r + 1" for r :: u32
  using unat_plus_1[of r] by (simp add: word_le_nat_alt)

text \<open>
  Whatever the digest function and the Blowfish primitives are, a key of one byte takes at
  most 256 values, so among the round counts 1 to 257 two derive the same key.
\<close>

lemma pbkdf_rounds_collide_on_one_byte:
  assumes "pass \<noteq> []" "salt \<noteq> []" "length salt \<le> 2 ^ 20" "calloc_ok e"
  shows "\<exists>r1 r2 :: u32. 1 \<le> r1 \<and> 1 \<le> r2 \<and> r1 \<noteq> r2 \<and>
           map_option ret (citadel_bcrypt_pbkdf e h ops pass salt [x] r1) = Some 0 \<and>
           map_option ret (citadel_bcrypt_pbkdf e h ops pass salt [x] r2) = Some 0 \<and>
           map_option key_buf (citadel_bcrypt_pbkdf e h ops pass salt [x] r1)
             = map_option key_buf (citadel_bcrypt_pbkdf e h ops pass salt [x] r2)"
proof -
  let ?f = "\<lambda>n::nat. key (kdf_final h ops pass salt [x] (of_nat n))"
  let ?A = "{1..257::nat}"
  have L: "1 \<le> length [x]" "length [x] \<le> 1024" by simp_all
  have len: "length (?f n) = 1" for n
    using kdf_final_stores(2)[OF L, of h ops pass salt "of_nat n"] by simp
  have "?f n \<in> range (\<lambda>b::u8. [b])" for n
  proof -
    obtain b where "?f n = [b]"
      using len[of n] by (cases "?f n") auto
    then show ?thesis by blast
  qed
  then have sub: "?f ` ?A \<subseteq> range (\<lambda>b::u8. [b])" by blast
  have "card (range (\<lambda>b::u8. [b])) \<le> card (UNIV :: u8 set)"
    by (rule card_image_le) simp
  also have "\<dots> = 256" by (simp add: card_word)
  finally have "card (range (\<lambda>b::u8. [b])) \<le> 256" .
  moreover have "card (?f ` ?A) \<le> card (range (\<lambda>b::u8. [b]))"
    using sub by (intro card_mono) simp_all
  ultimately have "card (?f ` ?A) < card ?A" by simp
  then have "\<not> inj_on ?f ?A" by (rule pigeonhole)
  then obtain a b where ab: "a \<in> ?A" "b \<in> ?A" "a \<noteq> b" "?f a = ?f b"
    by (auto simp: inj_on_def)
  have ua: "unat (of_nat a :: u32) = a" and ub: "unat (of_nat b :: u32) = b"
    using ab(1,2) by (simp_all add: unat_of_nat)
  have ra: "1 \<le> (of_nat a :: u32)" and rb: "1 \<le> (of_nat b :: u32)"
    using ab(1,2) ua ub by (simp_all add: word_le_nat_alt)
  have ne: "(of_nat a :: u32) \<noteq> of_nat b"
    using ab(3) ua ub by metis
  have pa: "citadel_bcrypt_pbkdf e h ops pass salt [x] (of_nat a)
              = Some (zap (h pass) (kdf_final h ops pass salt [x] (of_nat a)))"
    using ra assms(1,2) L assms(3,4) by (rule pbkdf_success)
  have pb: "citadel_bcrypt_pbkdf e h ops pass salt [x] (of_nat b)
              = Some (zap (h pass) (kdf_final h ops pass salt [x] (of_nat b)))"
    using rb assms(1,2) L assms(3,4) by (rule pbkdf_success)
  show ?thesis
    using ra rb ne ab(4)
    by (intro exI[of _ "of_nat a"] exI[of _ "of_nat b"])
       (simp only: pa pb option.map key_buf_zap ret_zap simp_thms)
qed

text \<open>
  C7, as stated, fails: with a digest function that returns the same digest for every
  input, 1 round and 3 rounds derive the same key, because the three identical
  \<open>bcrypt_hash\<close> results xor to one of them.
\<close>

theorem pbkdf_rounds_1_and_3_collide:
  "(1::u32) \<le> 1 \<and> (1::u32) \<le> 3 \<and> (1::u32) \<noteq> 3 \<and>
   map_option ret (citadel_bcrypt_pbkdf linux_env const_sha512 mock_blf [1] [2] (replicate 64 0) 1) = Some 0 \<and>
   map_option ret (citadel_bcrypt_pbkdf linux_env const_sha512 mock_blf [1] [2] (replicate 64 0) 3) = Some 0 \<and>
   map_option key_buf (citadel_bcrypt_pbkdf linux_env const_sha512 mock_blf [1] [2] (replicate 64 0) 1)
     = map_option key_buf (citadel_bcrypt_pbkdf linux_env const_sha512 mock_blf [1] [2] (replicate 64 0) 3)"
proof -
  have c: "const_sha512 x = replicate 64 1" for x
    by (simp add: const_sha512_def SHA512_DIGEST_LENGTH_def)
  have L: "1 \<le> length (replicate 64 (0::u8))" "length (replicate 64 (0::u8)) \<le> 1024" by simp_all
  have v: "[1::u8] \<noteq> []" "[2::u8] \<noteq> []" "length [2::u8] \<le> 2 ^ 20" "calloc_ok linux_env"
    by (simp_all add: linux_env_def)
  have r: "(1::u32) \<le> 1" "(1::u32) \<le> 3" "(1::u32) \<noteq> 3" by simp_all
  have p1: "citadel_bcrypt_pbkdf linux_env const_sha512 mock_blf [1] [2] (replicate 64 0) 1
     = Some (zap (const_sha512 [1]) (kdf_final const_sha512 mock_blf [1] [2] (replicate 64 0) 1))"
    using r(1) v(1,2) L v(3,4) by (rule pbkdf_success)
  have p3: "citadel_bcrypt_pbkdf linux_env const_sha512 mock_blf [1] [2] (replicate 64 0) 3
     = Some (zap (const_sha512 [1]) (kdf_final const_sha512 mock_blf [1] [2] (replicate 64 0) 3))"
    using r(2) v(1,2) L v(3,4) by (rule pbkdf_success)
  have "block_out const_sha512 mock_blf (const_sha512 [1]) (unat (1::u32)) cs
          = block_out const_sha512 mock_blf (const_sha512 [1]) (unat (3::u32)) cs" for cs
    using block_out_const_hash[of const_sha512 "replicate 64 1" mock_blf "const_sha512 [1]" cs, OF c]
    by simp
  then have "key (kdf_final const_sha512 mock_blf [1] [2] (replicate 64 0) 1)
           = key (kdf_final const_sha512 mock_blf [1] [2] (replicate 64 0) 3)"
    by (intro kdf_final_key_eq L)
  then show ?thesis
    using r by (simp only: p1 p3 option.map key_buf_zap ret_zap simp_thms)
qed

text \<open>
  C7, amended. With password, salt and key length fixed and valid, every byte of the key
  derived with \<open>rounds + 1\<close> rounds is the byte derived with \<open>rounds\<close> rounds xored with the
  byte that the \<open>bcrypt_hash\<close> result of the additional round contributes at that
  position. The two keys differ exactly when one of those contributed bytes is not zero.
\<close>

theorem pbkdf_extra_round_xors_block:
  assumes "1 \<le> rounds" "rounds + 1 \<noteq> 0" "pass \<noteq> []" "salt \<noteq> []" "1 \<le> length k"
    "length k \<le> 1024" "length salt \<le> 2 ^ 20" "calloc_ok e"
  shows "\<exists>r1 r2. citadel_bcrypt_pbkdf e h ops pass salt k rounds = Some r1 \<and>
      citadel_bcrypt_pbkdf e h ops pass salt k (rounds + 1) = Some r2 \<and>
      length (key_buf r1) = length k \<and> length (key_buf r2) = length k \<and>
      (\<forall>d < length k. key_buf r2 ! d = key_buf r1 ! d XOR
          block_tmp h ops (h pass) (unat (rounds + 1))
            (salt @ be32 (of_nat (Suc (d mod ((length k + 31) div 32))))) ! (d div ((length k + 31) div 32))) \<and>
      (key_buf r2 \<noteq> key_buf r1 \<longleftrightarrow>
         (\<exists>d < length k. block_tmp h ops (h pass) (unat (rounds + 1))
            (salt @ be32 (of_nat (Suc (d mod ((length k + 31) div 32))))) ! (d div ((length k + 31) div 32)) \<noteq> 0))"
proof -
  let ?s = "(length k + 31) div 32"
  let ?r1 = "zap (h pass) (kdf_final h ops pass salt k rounds)"
  let ?r2 = "zap (h pass) (kdf_final h ops pass salt k (rounds + 1))"
  let ?t = "\<lambda>d. block_tmp h ops (h pass) (unat (rounds + 1)) (salt @ be32 (of_nat (Suc (d mod ?s)))) ! (d div ?s)"
  note L = assms(5,6)
  have p1: "citadel_bcrypt_pbkdf e h ops pass salt k rounds = Some ?r1"
    using assms(1,3,4) L assms(7,8) by (rule pbkdf_success)
  have p2: "citadel_bcrypt_pbkdf e h ops pass salt k (rounds + 1) = Some ?r2"
    using one_le_plus_1[OF assms(2)] assms(3,4) L assms(7,8) by (rule pbkdf_success)
  have l1: "length (key_buf ?r1) = length k" and l2: "length (key_buf ?r2) = length k"
    by (simp_all add: key_buf_zap kdf_final_stores(2)[OF L])
  have x: "key_buf ?r2 ! d = key_buf ?r1 ! d XOR ?t d" if d: "d < length k" for d
  proof -
    have "d < 32 * ?s" using L d by simp
    then have j: "d div ?s < 32"
      using stride_bounds(1)[OF L] by (simp add: div_less_iff_less_mult mult.commute)
    show ?thesis
      using block_out_Suc[OF unat_ge_1[OF assms(1)] j, of h ops "h pass"]
      by (simp add: key_buf_zap kdf_final_key[OF L d] unat_plus_1[OF assms(2)])
  qed
  have "key_buf ?r2 \<noteq> key_buf ?r1 \<longleftrightarrow> (\<exists>d < length k. key_buf ?r2 ! d \<noteq> key_buf ?r1 ! d)"
    using l1 l2 by (auto simp: list_eq_iff_nth_eq)
  also have "\<dots> \<longleftrightarrow> (\<exists>d < length k. ?t d \<noteq> 0)"
    using x by (auto simp: word_xor_eq_self_iff)
  finally have iff: "key_buf ?r2 \<noteq> key_buf ?r1 \<longleftrightarrow> (\<exists>d < length k. ?t d \<noteq> 0)" .
  show ?thesis
    using p1 p2 l1 l2 x iff by blast
qed

theorem pbkdf_extra_round_xors_block_witness:
  "(1::u32) \<le> 2 \<and> (2::u32) + 1 \<noteq> 0 \<and> [1::u8] \<noteq> [] \<and> [2::u8] \<noteq> [] \<and>
   1 \<le> length (replicate 70 (0::u8)) \<and> length (replicate 70 (0::u8)) \<le> 1024 \<and>
   length [2::u8] \<le> 2 ^ 20 \<and> calloc_ok linux_env \<and>
   (\<exists>r1 r2. citadel_bcrypt_pbkdf linux_env mock_sha512 mock_blf [1] [2] (replicate 70 0) 2 = Some r1 \<and>
      citadel_bcrypt_pbkdf linux_env mock_sha512 mock_blf [1] [2] (replicate 70 0) (2 + 1) = Some r2 \<and>
      length (key_buf r1) = length (replicate 70 (0::u8)) \<and>
      length (key_buf r2) = length (replicate 70 (0::u8)) \<and>
      (\<forall>d < length (replicate 70 (0::u8)). key_buf r2 ! d = key_buf r1 ! d XOR
          block_tmp mock_sha512 mock_blf (mock_sha512 [1]) (unat ((2::u32) + 1))
            ([2] @ be32 (of_nat (Suc (d mod ((length (replicate 70 (0::u8)) + 31) div 32)))))
            ! (d div ((length (replicate 70 (0::u8)) + 31) div 32))) \<and>
      (key_buf r2 \<noteq> key_buf r1 \<longleftrightarrow>
         (\<exists>d < length (replicate 70 (0::u8)).
            block_tmp mock_sha512 mock_blf (mock_sha512 [1]) (unat ((2::u32) + 1))
              ([2] @ be32 (of_nat (Suc (d mod ((length (replicate 70 (0::u8)) + 31) div 32)))))
              ! (d div ((length (replicate 70 (0::u8)) + 31) div 32)) \<noteq> 0)))"
proof -
  have a: "(1::u32) \<le> 2" "(2::u32) + 1 \<noteq> 0" "[1::u8] \<noteq> []" "[2::u8] \<noteq> []"
    "1 \<le> length (replicate 70 (0::u8))" "length (replicate 70 (0::u8)) \<le> 1024"
    "length [2::u8] \<le> 2 ^ 20" "calloc_ok linux_env"
    by (simp_all add: linux_env_def)
  from pbkdf_extra_round_xors_block[OF a, of mock_sha512 mock_blf] a show ?thesis
    by blast
qed

section \<open>Claims about the failure path and the intermediate buffers\<close>

lemma kdf_final_locals:
  assumes "1 \<le> length k" "length k \<le> 1024"
  shows "countsalt (kdf_final h ops pass salt k rounds) = salt @ be32 (of_nat ((length k + 31) div 32))"
    and "sha2salt (kdf_final h ops pass salt k rounds)
           = Some (fst (kdf_block h ops (h pass) (unat rounds) (salt @ be32 (of_nat ((length k + 31) div 32)))))"
proof -
  let ?s = "(length k + 31) div 32"
  let ?it = "iteration h ops (h pass) (length salt) (unat rounds) ?s (length k)"
  note sb = stride_bounds[OF assms]
  obtain n where n: "?s = Suc n" using sb(1) by (cases ?s) auto
  then have lt: "n < ?s" by simp
  have inv: "kdf_inv h ops (h pass) (unat rounds) salt k ?s n ((?it ^^ n) (kdf_init salt k ?s))"
    using lt by (intro kdf_inv_iter[OF sb(2) sb(4)]) simp
  have f: "kdf_final h ops pass salt k rounds = ?it ((?it ^^ n) (kdf_init salt k ?s))"
    unfolding kdf_final_def by (subst n) simp
  show "countsalt (kdf_final h ops pass salt k rounds) = salt @ be32 (of_nat ?s)"
    unfolding f using kdf_inv_step(4)[OF inv lt sb(2) sb(4)] by (simp only: n)
  show "sha2salt (kdf_final h ops pass salt k rounds)
           = Some (fst (kdf_block h ops (h pass) (unat rounds) (salt @ be32 (of_nat ?s))))"
    unfolding f using kdf_inv_step(6)[OF inv lt sb(2) sb(4)] by (simp only: n)
qed

lemma bad_fills_when_served:
  assumes "apple e \<or> length k \<le> 256"
  shows "key_buf (bad e k (length k)) = map (random e) [0..<length k]"
  using assms by (auto simp: bad_def arc4random_buf_def getentropy_def)

text \<open>
  C3 fails on the branch compiled without \<open>__APPLE__\<close>: a key length of 1025 is rejected,
  the call returns -1, and the 1025 bytes of the buffer are what they were before the
  call, since the request to \<open>getentropy\<close> exceeds 256 bytes.
\<close>

theorem pbkdf_bad_leaves_long_buffer:
  "map_option ret (citadel_bcrypt_pbkdf linux_env mock_sha512 mock_blf [1] [2] (replicate 1025 0) 1)
     = Some (- 1) \<and>
   map_option key_buf (citadel_bcrypt_pbkdf linux_env mock_sha512 mock_blf [1] [2] (replicate 1025 0) 1)
     = Some (replicate 1025 0)"
proof -
  have "(1::u32) < 1 \<or> [1::u8] = [] \<or> [2::u8] = [] \<or> length (replicate 1025 (0::u8)) = 0 \<or>
        length (replicate 1025 (0::u8)) > 1024 \<or> length [2::u8] > 2 ^ 20 \<or> \<not> calloc_ok linux_env"
    by simp
  from pbkdf_failure[OF this, of mock_sha512 mock_blf]
  show ?thesis
    by (simp add: bad_def getentropy_def linux_env_def)
qed

text \<open>
  C5, as stated, fails: after a successful call the password digest still holds the
  digest of the password, and the counter+salt buffer is released holding the salt and
  the last counter.
\<close>

theorem pbkdf_leaves_digest_and_countsalt:
  "map_option ret (citadel_bcrypt_pbkdf linux_env mock_sha512 mock_blf [1] [2] [0] 1) = Some 0 \<and>
   map_option exit_sha2pass (citadel_bcrypt_pbkdf linux_env mock_sha512 mock_blf [1] [2] [0] 1)
     = Some (Some (replicate 64 1)) \<and>
   map_option exit_countsalt (citadel_bcrypt_pbkdf linux_env mock_sha512 mock_blf [1] [2] [0] 1)
     = Some (Some [2, 0, 0, 0, 1]) \<and>
   replicate 64 (1::u8) \<noteq> replicate 64 0 \<and> [2, 0, 0, 0, 1::u8] \<noteq> replicate 5 0"
proof -
  have L: "1 \<le> length [0::u8]" "length [0::u8] \<le> 1024" by simp_all
  have p: "citadel_bcrypt_pbkdf linux_env mock_sha512 mock_blf [1] [2] [0] 1
             = Some (zap (mock_sha512 [1]) (kdf_final mock_sha512 mock_blf [1] [2] [0] 1))"
    by (rule pbkdf_success) (simp_all add: linux_env_def)
  have cs: "countsalt (kdf_final mock_sha512 mock_blf [1] [2] [0] 1) = [2, 0, 0, 0, 1]"
    using kdf_final_locals(1)[OF L, of mock_sha512 mock_blf "[1]" "[2]" 1]
    by (simp add: be32_def)
  have d: "mock_sha512 [1] = replicate 64 1"
    by (simp add: mock_sha512_def SHA512_DIGEST_LENGTH_def)
  have ne: "replicate 64 (1::u8) \<noteq> replicate 64 0"
    by (simp add: replicate_eq_replicate)
  have ne2: "[2, 0, 0, 0, 1::u8] \<noteq> replicate 5 0"
    by (simp add: numeral_eq_Suc)
  show ?thesis
    using ne ne2 by (simp add: p zap_def cs d)
qed

text \<open>
  C5, amended. When the call returns 0, the running output block \<open>out\<close> and the scratch
  block \<open>tmpout\<close> hold zeros; the password digest still holds the digest of the password
  and the salt digest the last digest written to it. When the call fails, it returns
  before any intermediate buffer is written or allocated.
\<close>

theorem pbkdf_exit_buffers:
  "\<exists>r. citadel_bcrypt_pbkdf e h ops pass salt k rounds = Some r \<and>
     (ret r = 0 \<longrightarrow>
        exit_out r = Some (replicate 32 0) \<and> exit_tmpout r = Some (replicate 32 0) \<and>
        exit_sha2pass r = Some (h pass) \<and>
        exit_sha2salt r = Some (fst (kdf_block h ops (h pass) (unat rounds)
                                  (salt @ be32 (of_nat ((length k + 31) div 32)))))) \<and>
     (ret r \<noteq> 0 \<longrightarrow>
        exit_out r = None \<and> exit_tmpout r = None \<and> exit_sha2pass r = None \<and>
        exit_sha2salt r = None \<and> exit_countsalt r = None)"
proof (cases "rounds < 1 \<or> pass = [] \<or> salt = [] \<or> length k = 0 \<or> length k > 1024 \<or>
            length salt > 2 ^ 20 \<or> \<not> calloc_ok e")
  case True
  show ?thesis
    using pbkdf_failure[OF True, of h ops] by (simp add: bad_def)
next
  case False
  then have "\<not> rounds < 1" by blast
  then have r: "1 \<le> rounds" by (simp only: not_less)
  from False have v: "pass \<noteq> []" "salt \<noteq> []" "1 \<le> length k" "length k \<le> 1024"
    "length salt \<le> 2 ^ 20" "calloc_ok e"
    by (auto simp: not_less Suc_le_eq)
  show ?thesis
    using pbkdf_success[OF r v, of h ops] kdf_final_locals(2)[OF v(3,4), of h ops pass salt rounds]
    by (simp add: zap_def BCRYPT_HASHSIZE_def BCRYPT_WORDS_def)
qed

theorem pbkdf_exit_buffers_witness:
  "\<exists>r. citadel_bcrypt_pbkdf linux_env mock_sha512 mock_blf [1] [2] (replicate 70 0) 2 = Some r \<and>
     ret r = 0 \<and>
     exit_out r = Some (replicate 32 0) \<and> exit_tmpout r = Some (replicate 32 0) \<and>
     exit_sha2pass r = Some (mock_sha512 [1]) \<and>
     exit_sha2salt r = Some (fst (kdf_block mock_sha512 mock_blf (mock_sha512 [1]) (unat (2::u32))
                               ([2] @ be32 (of_nat ((length (replicate 70 (0::u8)) + 31) div 32)))))"
proof -
  have "citadel_bcrypt_pbkdf linux_env mock_sha512 mock_blf [1] [2] (replicate 70 0) 2
          = Some (zap (mock_sha512 [1]) (kdf_final mock_sha512 mock_blf [1] [2] (replicate 70 0) 2))"
    by (rule pbkdf_success) (simp_all add: linux_env_def)
  moreover have "ret (zap (mock_sha512 [1]) (kdf_final mock_sha512 mock_blf [1] [2] (replicate 70 0) 2)) = 0"
    by (rule ret_zap)
  ultimately show ?thesis
    using pbkdf_exit_buffers[of linux_env mock_sha512 mock_blf "[1]" "[2]" "replicate 70 0" 2]
    by force
qed

end
